theory Spec2Isabelle
  imports Main "HOL-Library.Product_Lexorder"
begin

section \<open>Data model of \<open>mario_engine.py\<close>\<close>

text \<open>
  Coordinates are pairs \<open>(x, y)\<close> of Python integers. The grid is a list of rows, read as
  \<open>self.grid[y][x]\<close>. The three cell codes are the class constants of
  \<open>MarioTrapAvoidance\<close>.
\<close>

type_synonym pos = "int \<times> int"
type_synonym matrix = "int list list"

datatype error = IndexError | ValueError | GridDataRequired

definition EMPTY :: int where "EMPTY = 0"
definition TRAP :: int where "TRAP = 1"
definition DANGEROUS :: int where "DANGEROUS = 2"

record engine =
  grid_size :: int
  grid :: matrix
  start :: pos
  goal :: pos

text \<open>
  \<open>__init__\<close>: no check of \<open>grid_size\<close> is made; \<open>range(n)\<close> is empty for
  \<open>n \<le> 0\<close>, which \<open>nat\<close> expresses.
\<close>

definition MarioTrapAvoidance :: "int \<Rightarrow> engine" where
  "MarioTrapAvoidance n =
     \<lparr>grid_size = n,
      grid = replicate (nat n) (replicate (nat n) 0),
      start = (0, 0),
      goal = (n - 1, n - 1)\<rparr>"

subsection \<open>List indexing as Python does it\<close>

text \<open>
  \<open>xs[i]\<close>: an index below zero counts from the end, and an index outside
  \<open>-len .. len-1\<close> raises \<open>IndexError\<close>. \<open>xs[i] = v\<close> has the same index rule.
\<close>

definition norm_index :: "'a list \<Rightarrow> int \<Rightarrow> error + nat" where
  "norm_index xs i =
     (if 0 \<le> i \<and> i < int (length xs) then Inr (nat i)
      else if i < 0 \<and> - int (length xs) \<le> i then Inr (nat (int (length xs) + i))
      else Inl IndexError)"

definition py_index :: "'a list \<Rightarrow> int \<Rightarrow> error + 'a" where
  "py_index xs i = (case norm_index xs i of Inl err \<Rightarrow> Inl err | Inr k \<Rightarrow> Inr (xs ! k))"

definition py_store :: "'a list \<Rightarrow> int \<Rightarrow> 'a \<Rightarrow> error + 'a list" where
  "py_store xs i v = (case norm_index xs i of Inl err \<Rightarrow> Inl err | Inr k \<Rightarrow> Inr (xs[k := v]))"

text \<open>\<open>self.grid[y][x]\<close> and \<open>self.grid[y][x] = v\<close>.\<close>

definition cell :: "matrix \<Rightarrow> int \<Rightarrow> int \<Rightarrow> error + int" where
  "cell g x y = (case py_index g y of Inl err \<Rightarrow> Inl err | Inr row \<Rightarrow> py_index row x)"

definition set_cell :: "matrix \<Rightarrow> int \<Rightarrow> int \<Rightarrow> int \<Rightarrow> error + matrix" where
  "set_cell g x y v =
     (case norm_index g y of Inl err \<Rightarrow> Inl err
      | Inr k \<Rightarrow> (case py_store (g ! k) x v of Inl err \<Rightarrow> Inl err
                 | Inr row \<Rightarrow> Inr (g[k := row])))"

subsection \<open>Neighbours, safety predicate, heuristic\<close>

definition directions :: "pos list" where
  "directions = [(0, 1), (1, 0), (0, -1), (-1, 0)]"

definition get_neighbors :: "engine \<Rightarrow> int \<Rightarrow> int \<Rightarrow> pos list" where
  "get_neighbors e x y =
     filter (\<lambda>(nx, ny). 0 \<le> nx \<and> nx < grid_size e \<and> 0 \<le> ny \<and> ny < grid_size e)
       (map (\<lambda>(dx, dy). (x + dx, y + dy)) directions)"

text \<open>The generator expression summed in \<open>is_safe_path\<close>.\<close>

fun dangerous_count :: "matrix \<Rightarrow> pos list \<Rightarrow> error + int" where
  "dangerous_count g [] = Inr 0"
| "dangerous_count g ((nx, ny) # ns) =
     (case cell g nx ny of Inl err \<Rightarrow> Inl err
      | Inr c \<Rightarrow> (case dangerous_count g ns of Inl err \<Rightarrow> Inl err
                 | Inr k \<Rightarrow> Inr ((if c = DANGEROUS \<or> c = TRAP then 1 else 0) + k)))"

definition is_safe_path :: "engine \<Rightarrow> int \<Rightarrow> int \<Rightarrow> error + bool" where
  "is_safe_path e x y =
     (case cell (grid e) x y of Inl err \<Rightarrow> Inl err
      | Inr c \<Rightarrow>
          if c = TRAP then Inr False
          else (case dangerous_count (grid e) (get_neighbors e x y) of Inl err \<Rightarrow> Inl err
                | Inr k \<Rightarrow> if 3 \<le> k then Inr False else Inr True))"

definition heuristic :: "engine \<Rightarrow> pos \<Rightarrow> int" where
  "heuristic e p = \<bar>fst p - fst (goal e)\<bar> + \<bar>snd p - snd (goal e)\<bar>"

section \<open>Grid generation: \<open>initialize_grid\<close>\<close>

text \<open>
  \<open>random.randint(a, b)\<close> raises \<open>ValueError\<close> when \<open>b < a\<close>; otherwise it returns the
  next draw. The draws are an input of the model: \<open>rand k\<close> is the value of the \<open>k\<close>-th
  call. Each round of the placement loop makes two calls, \<open>x\<close> first.
\<close>

definition randint :: "int \<Rightarrow> int \<Rightarrow> int \<Rightarrow> error + int" where
  "randint a b draw = (if b < a then Inl ValueError else Inr draw)"

function place_traps ::
  "engine \<Rightarrow> int \<Rightarrow> (nat \<Rightarrow> int) \<Rightarrow> matrix \<Rightarrow> nat \<Rightarrow> nat \<Rightarrow> error + matrix" where
  "place_traps e trap_count rand g traps_placed attempts =
     (if int traps_placed < trap_count \<and> int attempts < trap_count * 10 then
        (case randint 0 (grid_size e - 1) (rand (2 * attempts)) of Inl err \<Rightarrow> Inl err
         | Inr x \<Rightarrow>
        (case randint 0 (grid_size e - 1) (rand (2 * attempts + 1)) of Inl err \<Rightarrow> Inl err
         | Inr y \<Rightarrow>
            if (x, y) \<noteq> start e \<and> (x, y) \<noteq> goal e then
              (case cell g x y of Inl err \<Rightarrow> Inl err
               | Inr c \<Rightarrow>
                  if c \<noteq> TRAP then
                    (case set_cell g x y TRAP of Inl err \<Rightarrow> Inl err
                     | Inr g' \<Rightarrow>
                         place_traps e trap_count rand g' (traps_placed + 1) (attempts + 1))
                  else place_traps e trap_count rand g traps_placed (attempts + 1))
            else place_traps e trap_count rand g traps_placed (attempts + 1)))
      else Inr g)"
  by pat_completeness auto
termination
  by (relation "measure (\<lambda>(e, trap_count, rand, g, traps_placed, attempts).
        nat (trap_count * 10 - int attempts))") auto

declare place_traps.simps [simp del]

text \<open>The marking pass: the two nested \<open>for\<close> statements visit the cells row by row.\<close>

fun mark_neighbors :: "matrix \<Rightarrow> pos list \<Rightarrow> error + matrix" where
  "mark_neighbors g [] = Inr g"
| "mark_neighbors g ((nx, ny) # ns) =
     (case cell g nx ny of Inl err \<Rightarrow> Inl err
      | Inr c \<Rightarrow>
          if c = EMPTY then
            (case set_cell g nx ny DANGEROUS of Inl err \<Rightarrow> Inl err
             | Inr g' \<Rightarrow> mark_neighbors g' ns)
          else mark_neighbors g ns)"

fun mark_cells :: "engine \<Rightarrow> matrix \<Rightarrow> pos list \<Rightarrow> error + matrix" where
  "mark_cells e g [] = Inr g"
| "mark_cells e g ((x, y) # cs) =
     (case cell g x y of Inl err \<Rightarrow> Inl err
      | Inr c \<Rightarrow>
          if c = TRAP then
            (case mark_neighbors g (get_neighbors e x y) of Inl err \<Rightarrow> Inl err
             | Inr g' \<Rightarrow> mark_cells e g' cs)
          else mark_cells e g cs)"

definition scan_order :: "int \<Rightarrow> pos list" where
  "scan_order n = concat (map (\<lambda>y. map (\<lambda>x. (x, y)) [0..n - 1]) [0..n - 1])"

definition mark_dangerous_zones :: "engine \<Rightarrow> matrix \<Rightarrow> error + matrix" where
  "mark_dangerous_zones e g = mark_cells e g (scan_order (grid_size e))"

definition initialize_grid :: "engine \<Rightarrow> int \<Rightarrow> (nat \<Rightarrow> int) \<Rightarrow> error + engine" where
  "initialize_grid e trap_count rand =
     (let g0 = replicate (nat (grid_size e)) (replicate (nat (grid_size e)) 0) in
      case place_traps e trap_count rand g0 0 0 of Inl err \<Rightarrow> Inl err
      | Inr g1 \<Rightarrow> (case mark_dangerous_zones e g1 of Inl err \<Rightarrow> Inl err
                   | Inr g2 \<Rightarrow> Inr (e\<lparr>grid := g2\<rparr>)))"

section \<open>The search: \<open>a_star_search\<close>\<close>

text \<open>
  \<open>g_score\<close> and \<open>f_score\<close> are \<open>defaultdict\<close>s whose default is \<open>float('inf')\<close>: an
  absent key reads as infinity, which is \<open>None\<close> here. The heap only ever receives
  \<open>heappush\<close> and \<open>heappop\<close>; tuples \<open>(f, (x, y))\<close> are totally ordered
  lexicographically, so \<open>heappop\<close> returns the least entry whatever the layout of the heap
  array. The frontier is therefore kept as the list of pushed entries and \<open>heappop\<close>
  removes its least element. \<open>visited\<close> is kept in the order in which cells are settled.
\<close>

record search_state =
  open_set :: "(int \<times> pos) list"
  came_from :: "pos \<rightharpoonup> pos"
  g_score :: "pos \<rightharpoonup> int"
  f_score :: "pos \<rightharpoonup> int"
  explored :: nat
  pruned :: nat
  visited :: "pos list"

record search_result =
  path :: "pos list"
  visited_cells :: "pos list"
  stats_explored :: nat
  stats_pruned :: nat
  stats_path_length :: nat

definition heappush :: "(int \<times> pos) list \<Rightarrow> int \<times> pos \<Rightarrow> (int \<times> pos) list" where
  "heappush h item = h @ [item]"

definition heappop :: "(int \<times> pos) list \<Rightarrow> error + (int \<times> pos) \<times> (int \<times> pos) list" where
  "heappop h =
     (case h of [] \<Rightarrow> Inl IndexError
      | x # xs \<Rightarrow> (let m = fold min xs x in Inr (m, remove1 m h)))"

text \<open>Comparison of scores, with \<open>None\<close> as infinity: \<open>inf < inf\<close> is false.\<close>

fun score_less :: "int option \<Rightarrow> int option \<Rightarrow> bool" where
  "score_less (Some a) (Some b) = (a < b)"
| "score_less (Some a) None = True"
| "score_less None b = False"

text \<open>The body of the \<open>for neighbor in ...\<close> loop.\<close>

definition visit_neighbor ::
  "engine \<Rightarrow> pos \<Rightarrow> pos \<Rightarrow> search_state \<Rightarrow> error + search_state" where
  "visit_neighbor e current neighbor st =
     (case is_safe_path e (fst neighbor) (snd neighbor) of Inl err \<Rightarrow> Inl err
      | Inr safe \<Rightarrow>
          if \<not> safe then Inr (st\<lparr>pruned := pruned st + 1\<rparr>)
          else
            (case cell (grid e) (fst neighbor) (snd neighbor) of Inl err \<Rightarrow> Inl err
             | Inr c \<Rightarrow>
                 (let move_cost = (if c = DANGEROUS then 2 else 1);
                      tentative_g_score = map_option (\<lambda>gc. gc + move_cost) (g_score st current)
                  in if score_less tentative_g_score (g_score st neighbor) then
                       (case tentative_g_score of None \<Rightarrow> Inr st
                        | Some t \<Rightarrow>
                            Inr (st\<lparr>came_from := (came_from st)(neighbor \<mapsto> current),
                                    g_score := (g_score st)(neighbor \<mapsto> t),
                                    f_score := (f_score st)(neighbor \<mapsto> t + heuristic e neighbor),
                                    open_set := heappush (open_set st)
                                                  (t + heuristic e neighbor, neighbor)\<rparr>))
                     else Inr st)))"

fun explore_neighbors ::
  "engine \<Rightarrow> pos \<Rightarrow> pos list \<Rightarrow> search_state \<Rightarrow> error + search_state" where
  "explore_neighbors e current [] st = Inr st"
| "explore_neighbors e current (n # ns) st =
     (case visit_neighbor e current n st of Inl err \<Rightarrow> Inl err
      | Inr st' \<Rightarrow> explore_neighbors e current ns st')"

text \<open>
  \<open>reconstruct_path\<close>: the \<open>while current in came_from\<close> loop does not end when
  \<open>came_from\<close> has a cycle, so it is a partial function; \<open>None\<close> is "does not return".
\<close>

partial_function (option) reconstruct_loop ::
  "(pos \<rightharpoonup> pos) \<Rightarrow> pos \<Rightarrow> pos list \<Rightarrow> pos list option" where
  "reconstruct_loop cf current pth =
     (case cf current of None \<Rightarrow> Some pth
      | Some prev \<Rightarrow> reconstruct_loop cf prev (pth @ [prev]))"

definition reconstruct_path :: "(pos \<rightharpoonup> pos) \<Rightarrow> pos \<Rightarrow> pos list option" where
  "reconstruct_path cf current = map_option rev (reconstruct_loop cf current [current])"

text \<open>
  The \<open>while open_set\<close> loop. The engine is a parameter that the loop reads; it is handed
  back with the result.
\<close>

partial_function (option) a_star_loop ::
  "engine \<Rightarrow> search_state \<Rightarrow> (error + search_result \<times> engine) option" where
  "a_star_loop e st =
     (if open_set st = [] then
        Some (Inr (\<lparr>path = [], visited_cells = visited st,
                    stats_explored = explored st, stats_pruned = pruned st,
                    stats_path_length = 0\<rparr>, e))
      else
        (case heappop (open_set st) of Inl err \<Rightarrow> Some (Inl err)
         | Inr (item, rest) \<Rightarrow>
             (let current = snd item in
              if current \<in> set (visited st) then a_star_loop e (st\<lparr>open_set := rest\<rparr>)
              else
                (let st1 = st\<lparr>open_set := rest, visited := visited st @ [current],
                              explored := explored st + 1\<rparr>
                 in if current = goal e then
                      (case reconstruct_path (came_from st1) current of None \<Rightarrow> None
                       | Some p \<Rightarrow>
                           Some (Inr (\<lparr>path = p, visited_cells = visited st1,
                                       stats_explored = explored st1,
                                       stats_pruned = pruned st1,
                                       stats_path_length = length p\<rparr>, e)))
                    else
                      (case explore_neighbors e current
                              (get_neighbors e (fst current) (snd current)) st1 of
                         Inl err \<Rightarrow> Some (Inl err)
                       | Inr st2 \<Rightarrow> a_star_loop e st2)))))"

declare reconstruct_loop.simps [code]
declare a_star_loop.simps [code]

definition initial_state :: "engine \<Rightarrow> search_state" where
  "initial_state e =
     \<lparr>open_set = heappush [] (0, start e),
      came_from = Map.empty,
      g_score = [start e \<mapsto> 0],
      f_score = [start e \<mapsto> heuristic e (start e)],
      explored = 0,
      pruned = 0,
      visited = []\<rparr>"

definition a_star_search :: "engine \<Rightarrow> (error + search_result \<times> engine) option" where
  "a_star_search e = a_star_loop e (initial_state e)"

subsection \<open>The search with the object threaded through\<close>

text \<open>
  Every method of the class receives \<open>self\<close> and could assign to its attributes. To state
  what a call leaves in the object, the methods that the search calls are given a second
  time in state-passing form: each takes the object and returns its value together with
  the object as its body leaves it, and each call site goes on with the object that the
  callee returned. An exception leaves the object as it is at the raise. The body of
  \<open>reconstruct_path\<close> does not mention \<open>self\<close>.
\<close>

definition get_neighbors_self :: "int \<Rightarrow> int \<Rightarrow> engine \<Rightarrow> pos list \<times> engine" where
  "get_neighbors_self x y self =
     (filter (\<lambda>(nx, ny). 0 \<le> nx \<and> nx < grid_size self \<and> 0 \<le> ny \<and> ny < grid_size self)
        (map (\<lambda>(dx, dy). (x + dx, y + dy)) directions), self)"

definition is_safe_path_self :: "int \<Rightarrow> int \<Rightarrow> engine \<Rightarrow> (error + bool) \<times> engine" where
  "is_safe_path_self x y self =
     (case cell (grid self) x y of Inl err \<Rightarrow> (Inl err, self)
      | Inr c \<Rightarrow>
          if c = TRAP then (Inr False, self)
          else
            (case get_neighbors_self x y self of (neighbors, self1) \<Rightarrow>
               (case dangerous_count (grid self1) neighbors of Inl err \<Rightarrow> (Inl err, self1)
                | Inr k \<Rightarrow> if 3 \<le> k then (Inr False, self1) else (Inr True, self1))))"

definition heuristic_self :: "pos \<Rightarrow> engine \<Rightarrow> int \<times> engine" where
  "heuristic_self p self = (\<bar>fst p - fst (goal self)\<bar> + \<bar>snd p - snd (goal self)\<bar>, self)"

definition visit_neighbor_self ::
  "pos \<Rightarrow> pos \<Rightarrow> search_state \<Rightarrow> engine \<Rightarrow> (error + search_state) \<times> engine" where
  "visit_neighbor_self current neighbor st self =
     (case is_safe_path_self (fst neighbor) (snd neighbor) self of
        (Inl err, self1) \<Rightarrow> (Inl err, self1)
      | (Inr ok, self1) \<Rightarrow>
          if \<not> ok then (Inr (st\<lparr>pruned := pruned st + 1\<rparr>), self1)
          else
            (case cell (grid self1) (fst neighbor) (snd neighbor) of
               Inl err \<Rightarrow> (Inl err, self1)
             | Inr c \<Rightarrow>
                 (let move_cost = (if c = DANGEROUS then 2 else 1);
                      tentative_g_score = map_option (\<lambda>gc. gc + move_cost) (g_score st current)
                  in if score_less tentative_g_score (g_score st neighbor) then
                       (case tentative_g_score of None \<Rightarrow> (Inr st, self1)
                        | Some t \<Rightarrow>
                            (case heuristic_self neighbor self1 of (h, self2) \<Rightarrow>
                               (Inr (st\<lparr>came_from := (came_from st)(neighbor \<mapsto> current),
                                        g_score := (g_score st)(neighbor \<mapsto> t),
                                        f_score := (f_score st)(neighbor \<mapsto> t + h),
                                        open_set := heappush (open_set st) (t + h, neighbor)\<rparr>),
                                self2)))
                     else (Inr st, self1))))"

fun explore_neighbors_self ::
  "pos \<Rightarrow> pos list \<Rightarrow> search_state \<Rightarrow> engine \<Rightarrow> (error + search_state) \<times> engine" where
  "explore_neighbors_self current [] st self = (Inr st, self)"
| "explore_neighbors_self current (n # ns) st self =
     (case visit_neighbor_self current n st self of
        (Inl err, self1) \<Rightarrow> (Inl err, self1)
      | (Inr st', self1) \<Rightarrow> explore_neighbors_self current ns st' self1)"

definition reconstruct_path_self ::
  "(pos \<rightharpoonup> pos) \<Rightarrow> pos \<Rightarrow> engine \<Rightarrow> (pos list \<times> engine) option" where
  "reconstruct_path_self cf current self =
     map_option (\<lambda>p. (p, self)) (map_option rev (reconstruct_loop cf current [current]))"

partial_function (option) a_star_loop_self ::
  "search_state \<Rightarrow> engine \<Rightarrow> ((error + search_result) \<times> engine) option" where
  "a_star_loop_self st self =
     (if open_set st = [] then
        Some (Inr \<lparr>path = [], visited_cells = visited st,
                   stats_explored = explored st, stats_pruned = pruned st,
                   stats_path_length = 0\<rparr>, self)
      else
        (case heappop (open_set st) of Inl err \<Rightarrow> Some (Inl err, self)
         | Inr (item, rest) \<Rightarrow>
             (let current = snd item in
              if current \<in> set (visited st) then a_star_loop_self (st\<lparr>open_set := rest\<rparr>) self
              else
                (let st1 = st\<lparr>open_set := rest, visited := visited st @ [current],
                              explored := explored st + 1\<rparr>
                 in if current = goal self then
                      (case reconstruct_path_self (came_from st1) current self of None \<Rightarrow> None
                       | Some (p, self1) \<Rightarrow>
                           Some (Inr \<lparr>path = p, visited_cells = visited st1,
                                      stats_explored = explored st1,
                                      stats_pruned = pruned st1,
                                      stats_path_length = length p\<rparr>, self1))
                    else
                      (case get_neighbors_self (fst current) (snd current) self of
                         (neighbors, self1) \<Rightarrow>
                           (case explore_neighbors_self current neighbors st1 self1 of
                              (Inl err, self2) \<Rightarrow> Some (Inl err, self2)
                            | (Inr st2, self2) \<Rightarrow> a_star_loop_self st2 self2))))))"

declare a_star_loop_self.simps [code]

definition a_star_search_self :: "engine \<Rightarrow> ((error + search_result) \<times> engine) option" where
  "a_star_search_self self =
     (case heuristic_self (start self) self of (h, self1) \<Rightarrow>
        a_star_loop_self
          \<lparr>open_set = heappush [] (0, start self),
           came_from = Map.empty,
           g_score = [start self \<mapsto> 0],
           f_score = [start self \<mapsto> h],
           explored = 0,
           pruned = 0,
           visited = []\<rparr> self1)"

section \<open>The request handler \<open>find_path\<close> of \<open>app.py\<close>\<close>

text \<open>
  \<open>data.get('grid')\<close> is \<open>None\<close> when the key is missing. \<open>not grid\<close> holds for
  \<open>None\<close> and for the empty list; the handler then answers
  \<open>{'error': 'Grid data required'}\<close> with status 400.
\<close>

definition find_path :: "matrix option \<Rightarrow> (error + search_result) option" where
  "find_path data =
     (case data of None \<Rightarrow> Some (Inl GridDataRequired)
      | Some g \<Rightarrow>
          if g = [] then Some (Inl GridDataRequired)
          else
            (let game = (MarioTrapAvoidance (int (length g)))\<lparr>grid := g\<rparr>
             in map_option (map_sum id fst) (a_star_search game)))"

section \<open>Notions used to state the properties\<close>

text \<open>
  A grid is square of dimension \<open>n\<close> when it has \<open>n\<close> rows of \<open>n\<close> cells; for
  \<open>n \<le> 0\<close> that is the empty grid. A coordinate is in bounds when both components lie in
  \<open>0 .. n - 1\<close>. \<open>trap_neighbor\<close> says that one of the in-bounds 4-neighbours holds a
  Trap. \<open>count_traps\<close> is the number of Trap cells. \<open>draws_mod\<close> is a concrete
  sequence of draws.
\<close>

definition square :: "int \<Rightarrow> matrix \<Rightarrow> bool" where
  "square n g \<longleftrightarrow> length g = nat n \<and> list_all (\<lambda>row. length row = nat n) g"

definition inb :: "int \<Rightarrow> int \<Rightarrow> int \<Rightarrow> bool" where
  "inb n x y \<longleftrightarrow> 0 \<le> x \<and> x < n \<and> 0 \<le> y \<and> y < n"

definition trap_neighbor :: "engine \<Rightarrow> matrix \<Rightarrow> int \<Rightarrow> int \<Rightarrow> bool" where
  "trap_neighbor e g x y \<longleftrightarrow>
     list_ex (\<lambda>(nx, ny). cell g nx ny = Inr TRAP) (get_neighbors e x y)"

definition count_traps :: "matrix \<Rightarrow> nat" where
  "count_traps g = sum_list (map (\<lambda>row. length (filter (\<lambda>c. c = TRAP) row)) g)"

definition only_empty_or_trap :: "int \<Rightarrow> matrix \<Rightarrow> bool" where
  "only_empty_or_trap n g \<longleftrightarrow>
     (\<forall>x y. inb n x y \<longrightarrow> cell g x y = Inr EMPTY \<or> cell g x y = Inr TRAP)"

definition ends_free :: "engine \<Rightarrow> matrix \<Rightarrow> bool" where
  "ends_free e g \<longleftrightarrow>
     (\<forall>x y. inb (grid_size e) x y \<longrightarrow> (x, y) = start e \<or> (x, y) = goal e \<longrightarrow>
        cell g x y \<noteq> Inr TRAP)"

definition draws_mod :: "int \<Rightarrow> nat \<Rightarrow> int" where
  "draws_mod n k = int k mod n"

definition classified :: "engine \<Rightarrow> bool" where
  "classified e \<longleftrightarrow>
     (\<forall>x y. inb (grid_size e) x y \<longrightarrow>
        (cell (grid e) x y = Inr DANGEROUS \<longleftrightarrow>
           cell (grid e) x y \<noteq> Inr TRAP \<and> trap_neighbor e (grid e) x y)
        \<and> (cell (grid e) x y = Inr DANGEROUS \<or> cell (grid e) x y = Inr TRAP
             \<or> cell (grid e) x y = Inr EMPTY))"

text \<open>
  Notions for the search. A cell is \<open>safe\<close> when \<open>is_safe_path\<close> returns true on it;
  \<open>move_cost\<close> is the cost the loop charges for entering a cell. \<open>relax\<close> is what one
  round of the \<open>for neighbor\<close> loop does to the state when no read fails.
\<close>

definition safe :: "engine \<Rightarrow> pos \<Rightarrow> bool" where
  "safe e p \<longleftrightarrow> is_safe_path e (fst p) (snd p) = Inr True"

definition move_cost :: "engine \<Rightarrow> pos \<Rightarrow> int" where
  "move_cost e p = (if cell (grid e) (fst p) (snd p) = Inr DANGEROUS then 2 else 1)"

definition relax :: "engine \<Rightarrow> pos \<Rightarrow> pos \<Rightarrow> search_state \<Rightarrow> search_state" where
  "relax e current neighbor st =
     (if \<not> safe e neighbor then st\<lparr>pruned := pruned st + 1\<rparr>
      else
        (case g_score st current of None \<Rightarrow> st
         | Some gc \<Rightarrow>
             (let t = gc + move_cost e neighbor
              in if score_less (Some t) (g_score st neighbor) then
                   st\<lparr>came_from := (came_from st)(neighbor \<mapsto> current),
                      g_score := (g_score st)(neighbor \<mapsto> t),
                      f_score := (f_score st)(neighbor \<mapsto> t + heuristic e neighbor),
                      open_set := heappush (open_set st) (t + heuristic e neighbor, neighbor)\<rparr>
                 else st)))"

text \<open>
  \<open>chain cf xs\<close>: the list \<open>xs\<close> follows \<open>came_from\<close> from its head to a cell without
  predecessor. \<open>chain_ok\<close>: scores are not negative and strictly decrease along
  \<open>came_from\<close>.
\<close>

fun chain :: "(pos \<rightharpoonup> pos) \<Rightarrow> pos list \<Rightarrow> bool" where
  "chain cf [] = False"
| "chain cf [x] = (cf x = None)"
| "chain cf (x # y # ys) = (cf x = Some y \<and> chain cf (y # ys))"

definition chain_ok :: "(pos \<rightharpoonup> int) \<Rightarrow> (pos \<rightharpoonup> pos) \<Rightarrow> bool" where
  "chain_ok g cf \<longleftrightarrow>
     (\<forall>v gv. g v = Some gv \<longrightarrow> 0 \<le> gv)
     \<and> (\<forall>v u. cf v = Some u \<longrightarrow> (\<exists>gu gv. g u = Some gu \<and> g v = Some gv \<and> gu < gv))"

text \<open>
  What holds of every state the loop reaches: \<open>came_from\<close> is well founded, only safe
  cells have a predecessor, the start cell is the only scored cell without one, its score
  is 0, and every frontier entry has a score.
\<close>

definition basic_inv :: "engine \<Rightarrow> search_state \<Rightarrow> bool" where
  "basic_inv e st \<longleftrightarrow>
     chain_ok (g_score st) (came_from st)
     \<and> (\<forall>v u. came_from st v = Some u \<longrightarrow> safe e v)
     \<and> (\<forall>v. g_score st v \<noteq> None \<longrightarrow> came_from st v = None \<longrightarrow> v = start e)
     \<and> g_score st (start e) = Some 0
     \<and> (\<forall>item \<in> set (open_set st). g_score st (snd item) \<noteq> None)"

text \<open>
  The two result records, the state after settling a popped entry, and the measure of the
  loop: the cells next to or on the grid not yet settled, then the size of the frontier.
\<close>

definition no_path_result :: "search_state \<Rightarrow> search_result" where
  "no_path_result st =
     \<lparr>path = [], visited_cells = visited st, stats_explored = explored st,
      stats_pruned = pruned st, stats_path_length = 0\<rparr>"

definition found_result :: "pos list \<Rightarrow> search_state \<Rightarrow> search_result" where
  "found_result p st =
     \<lparr>path = p, visited_cells = visited st, stats_explored = explored st,
      stats_pruned = pruned st, stats_path_length = length p\<rparr>"

definition settle :: "search_state \<Rightarrow> (int \<times> pos) \<Rightarrow> search_state" where
  "settle st item =
     st\<lparr>open_set := remove1 item (open_set st), visited := visited st @ [snd item],
        explored := explored st + 1\<rparr>"

definition universe :: "engine \<Rightarrow> pos set" where
  "universe e = {- 1 .. grid_size e} \<times> {- 1 .. grid_size e}"

definition loop_order :: "engine \<Rightarrow> (search_state \<times> search_state) set" where
  "loop_order e =
     inv_image (less_than <*lex*> less_than)
       (\<lambda>st. (card (universe e - set (visited st)), length (open_set st)))"

text \<open>
  \<open>load_grid\<close> is the engine that \<open>find_path\<close> builds from a matrix. \<open>outcome_ok\<close>
  collects what is shown of every outcome.
\<close>

definition load_grid :: "matrix \<Rightarrow> engine" where
  "load_grid g = (MarioTrapAvoidance (int (length g)))\<lparr>grid := g\<rparr>"



text \<open>
  Paths on the grid. A step \<open>edge e u v\<close> goes from \<open>u\<close> to one of its in-bounds
  4-neighbours \<open>v\<close> that satisfies the safety predicate; a valid path is a non-empty list
  of cells joined by steps, so every cell after the first is safe. Its cost is the sum of
  \<open>move_cost\<close> over the cells after the first. \<open>reach e c v\<close>: some valid path from the
  start cell to \<open>v\<close> has cost \<open>c\<close>.
\<close>

definition edge :: "engine \<Rightarrow> pos \<Rightarrow> pos \<Rightarrow> bool" where
  "edge e u v \<longleftrightarrow> v \<in> set (get_neighbors e (fst u) (snd u)) \<and> safe e v"

fun valid_path :: "engine \<Rightarrow> pos list \<Rightarrow> bool" where
  "valid_path e [] = False"
| "valid_path e [p] = True"
| "valid_path e (p # q # ps) = (edge e p q \<and> valid_path e (q # ps))"

definition path_cost :: "engine \<Rightarrow> pos list \<Rightarrow> int" where
  "path_cost e ps = sum_list (map (move_cost e) (tl ps))"

inductive reach :: "engine \<Rightarrow> int \<Rightarrow> pos \<Rightarrow> bool" for e :: engine where
  reach_start: "reach e 0 (start e)"
| reach_step: "reach e c u \<Longrightarrow> edge e u v \<Longrightarrow> reach e (c + move_cost e v) v"

text \<open>
  The invariant of the search, for a set \<open>S\<close> of settled cells whose neighbours have all
  been tried: every score is the cost of a path; the steps out of \<open>S\<close> are relaxed;
  a settled cell has the least cost of any path to it; an unsettled scored cell has a
  frontier entry of at most its \<open>f\<close> value; frontier entries other than the first are
  at least the \<open>f\<close> value of their cell; \<open>came_from\<close> follows steps that account for
  the scores; the goal is not settled.
\<close>

definition opt_inv :: "engine \<Rightarrow> pos set \<Rightarrow> search_state \<Rightarrow> bool" where
  "opt_inv e S st \<longleftrightarrow>
     (\<forall>v gv. g_score st v = Some gv \<longrightarrow> reach e gv v)
     \<and> (\<forall>u v. u \<in> S \<longrightarrow> edge e u v \<longrightarrow>
          (\<exists>gu gv. g_score st u = Some gu \<and> g_score st v = Some gv
             \<and> gv \<le> gu + move_cost e v))
     \<and> (\<forall>u c. u \<in> set (visited st) \<longrightarrow> reach e c u \<longrightarrow>
          (\<exists>gu. g_score st u = Some gu \<and> gu \<le> c))
     \<and> (\<forall>v gv. g_score st v = Some gv \<longrightarrow> v \<notin> set (visited st) \<longrightarrow>
          (\<exists>f. (f, v) \<in> set (open_set st) \<and> f \<le> gv + heuristic e v))
     \<and> (\<forall>f v. (f, v) \<in> set (open_set st) \<longrightarrow>
          v = start e \<or> (\<exists>gv. g_score st v = Some gv \<and> gv + heuristic e v \<le> f))
     \<and> (\<forall>v u. came_from st v = Some u \<longrightarrow>
          edge e u v \<and> (\<exists>gu gv. g_score st u = Some gu \<and> g_score st v = Some gv
             \<and> gu + move_cost e v \<le> gv))
     \<and> goal e \<notin> set (visited st)"

text \<open>
  What is shown of the outcome when the goal can be reached: a path is returned, it is a
  valid path from the start cell to the goal cell, and no valid path from the start cell
  to the goal cell costs less.
\<close>

definition optimal_outcome :: "engine \<Rightarrow> error + search_result \<times> engine \<Rightarrow> bool" where
  "optimal_outcome e out \<longleftrightarrow>
     (\<exists>r. out = Inr (r, e) \<and> path r \<noteq> [] \<and> valid_path e (path r)
        \<and> hd (path r) = start e \<and> last (path r) = goal e
        \<and> (\<forall>c. reach e c (goal e) \<longrightarrow> path_cost e (path r) \<le> c))"

text \<open>The invariant of the \<open>while open_set\<close> loop used for optimality.\<close>

definition search_inv :: "engine \<Rightarrow> search_state \<Rightarrow> bool" where
  "search_inv e st \<longleftrightarrow> basic_inv e st \<and> opt_inv e (set (visited st)) st"

section \<open>Square grids: reading, writing, neighbours\<close>

lemma square_row: "square n g \<Longrightarrow> k < nat n \<Longrightarrow> length (g ! k) = nat n"
  by (simp add: square_def list_all_length)

lemma cell_square:
  assumes "square n g" "inb n x y"
  shows "cell g x y = Inr (g ! nat y ! nat x)"
proof -
  have ly: "length g = nat n" using assms by (simp add: square_def)
  have lr: "length (g ! nat y) = nat n" using assms by (intro square_row) (auto simp: inb_def)
  show ?thesis using assms(2) ly lr
    by (auto simp: cell_def py_index_def norm_index_def inb_def)
qed

lemma set_cell_square:
  assumes "square n g" "inb n x y"
  shows "set_cell g x y v = Inr (g[nat y := (g ! nat y)[nat x := v]])"
proof -
  have ly: "length g = nat n" using assms by (simp add: square_def)
  have lr: "length (g ! nat y) = nat n" using assms by (intro square_row) (auto simp: inb_def)
  show ?thesis using assms(2) ly lr
    by (auto simp: set_cell_def py_store_def norm_index_def inb_def)
qed

lemma square_update:
  assumes "square n g" "inb n x y"
  shows "square n (g[nat y := (g ! nat y)[nat x := v]])"
  using assms
  by (auto simp: square_def list_all_length nth_list_update inb_def)

lemma set_cell_ok:
  assumes "square n g" "inb n x y"
  shows "\<exists>g'. set_cell g x y v = Inr g' \<and> square n g'
           \<and> (\<forall>x' y'. inb n x' y' \<longrightarrow>
                 cell g' x' y' = (if x' = x \<and> y' = y then Inr v else cell g x' y'))"
proof -
  let ?g' = "g[nat y := (g ! nat y)[nat x := v]]"
  have sq: "square n ?g'" by (rule square_update [OF assms])
  have ly: "length g = nat n" using assms by (simp add: square_def)
  have lr: "length (g ! nat y) = nat n" using assms by (intro square_row) (auto simp: inb_def)
  have rd: "cell ?g' x' y' = (if x' = x \<and> y' = y then Inr v else cell g x' y')"
    if "inb n x' y'" for x' y'
  proof -
    have "?g' ! nat y' ! nat x' = (if x' = x \<and> y' = y then v else g ! nat y' ! nat x')"
      using that assms(2) ly lr
      by (auto simp: nth_list_update inb_def nat_eq_iff)
    then show ?thesis
      using cell_square [OF sq that] cell_square [OF assms(1) that] by simp
  qed
  show ?thesis using set_cell_square [OF assms] sq rd by blast
qed

lemma cell_ok: "square n g \<Longrightarrow> inb n x y \<Longrightarrow> \<exists>c. cell g x y = Inr c"
  by (simp add: cell_square)

lemma square_ext:
  assumes "square n g" "square n g'"
    and "\<And>x y. inb n x y \<Longrightarrow> cell g x y = cell g' x y"
  shows "g = g'"
proof (rule nth_equalityI)
  show "length g = length g'" using assms by (simp add: square_def)
next
  fix i assume i: "i < length g"
  then have i': "i < nat n" using assms by (simp add: square_def)
  show "g ! i = g' ! i"
  proof (rule nth_equalityI)
    show "length (g ! i) = length (g' ! i)"
      using square_row [OF assms(1) i'] square_row [OF assms(2) i'] by simp
  next
    fix j assume "j < length (g ! i)"
    then have j': "j < nat n" using square_row [OF assms(1) i'] by simp
    have ib: "inb n (int j) (int i)" using i' j' by (auto simp: inb_def)
    show "g ! i ! j = g' ! i ! j"
      using assms(3) [OF ib] cell_square [OF assms(1) ib] cell_square [OF assms(2) ib]
      by simp
  qed
qed

lemma get_neighbors_alt:
  "get_neighbors e x y =
     filter (\<lambda>p. inb (grid_size e) (fst p) (snd p))
       [(x, y + 1), (x + 1, y), (x, y - 1), (x - 1, y)]"
proof -
  have "(\<lambda>(nx, ny). 0 \<le> nx \<and> nx < grid_size e \<and> 0 \<le> ny \<and> ny < grid_size e)
      = (\<lambda>p. inb (grid_size e) (fst p) (snd p))"
    by (simp add: fun_eq_iff inb_def)
  then show ?thesis
    unfolding get_neighbors_def directions_def by simp
qed

lemma get_neighbors_set:
  "set (get_neighbors e x y) =
     {p \<in> {(x, y + 1), (x + 1, y), (x, y - 1), (x - 1, y)}. inb (grid_size e) (fst p) (snd p)}"
  unfolding get_neighbors_alt set_filter by simp

lemma adjacent_iff:
  "\<bar>nx - x\<bar> + \<bar>ny - y\<bar> = (1::int) \<longleftrightarrow>
     (nx = x \<and> ny = y + 1) \<or> (nx = x + 1 \<and> ny = y) \<or> (nx = x \<and> ny = y - 1)
     \<or> (nx = x - 1 \<and> ny = y)"
  by presburger

lemma get_neighbors_iff:
  "(nx, ny) \<in> set (get_neighbors e x y) \<longleftrightarrow>
     inb (grid_size e) nx ny \<and> \<bar>nx - x\<bar> + \<bar>ny - y\<bar> = 1"
  unfolding get_neighbors_set adjacent_iff by auto

lemma get_neighbors_inb:
  "(nx, ny) \<in> set (get_neighbors e x y) \<Longrightarrow> inb (grid_size e) nx ny"
  by (simp add: get_neighbors_iff)

lemma get_neighbors_sym:
  "inb (grid_size e) x y \<Longrightarrow> (nx, ny) \<in> set (get_neighbors e x y) \<Longrightarrow>
     (x, y) \<in> set (get_neighbors e nx ny)"
  by (auto simp: get_neighbors_iff)

lemma codes_distinct [simp]:
  "EMPTY \<noteq> TRAP" "TRAP \<noteq> EMPTY" "EMPTY \<noteq> DANGEROUS" "DANGEROUS \<noteq> EMPTY"
  "TRAP \<noteq> DANGEROUS" "DANGEROUS \<noteq> TRAP"
  by (simp_all add: EMPTY_def TRAP_def DANGEROUS_def)

lemma mark_neighbors_ok:
  assumes "square n g" "\<forall>(nx, ny) \<in> set ns. inb n nx ny"
  shows "\<exists>g'. mark_neighbors g ns = Inr g' \<and> square n g'
           \<and> (\<forall>x y. inb n x y \<longrightarrow>
                 cell g' x y = (if cell g x y = Inr EMPTY \<and> (x, y) \<in> set ns
                                then Inr DANGEROUS else cell g x y))"
  using assms
proof (induction ns arbitrary: g)
  case Nil
  then show ?case by simp
next
  case (Cons p ns)
  obtain nx ny where p: "p = (nx, ny)" by (cases p)
  have ib: "inb n nx ny" using Cons.prems(2) p by simp
  have rest: "\<forall>(nx, ny) \<in> set ns. inb n nx ny" using Cons.prems(2) by simp
  obtain c where c: "cell g nx ny = Inr c" using cell_ok [OF Cons.prems(1) ib] by blast
  show ?case
  proof (cases "c = EMPTY")
    case True
    obtain g1 where g1: "set_cell g nx ny DANGEROUS = Inr g1" "square n g1"
      and rd: "\<And>x' y'. inb n x' y' \<Longrightarrow>
                 cell g1 x' y' = (if x' = nx \<and> y' = ny then Inr DANGEROUS else cell g x' y')"
      using set_cell_ok [OF Cons.prems(1) ib, of DANGEROUS] by blast
    obtain g' where g': "mark_neighbors g1 ns = Inr g'" "square n g'"
      and rd': "\<And>x y. inb n x y \<Longrightarrow>
                 cell g' x y = (if cell g1 x y = Inr EMPTY \<and> (x, y) \<in> set ns
                                then Inr DANGEROUS else cell g1 x y)"
      using Cons.IH [OF g1(2) rest] by blast
    have "cell g' x y = (if cell g x y = Inr EMPTY \<and> (x, y) \<in> set (p # ns)
                          then Inr DANGEROUS else cell g x y)" if "inb n x y" for x y
      using rd' [OF that] rd [OF that] c True p by auto
    then show ?thesis using g' g1 c True p by simp
  next
    case False
    obtain g' where g': "mark_neighbors g ns = Inr g'" "square n g'"
      and rd': "\<And>x y. inb n x y \<Longrightarrow>
                 cell g' x y = (if cell g x y = Inr EMPTY \<and> (x, y) \<in> set ns
                                then Inr DANGEROUS else cell g x y)"
      using Cons.IH [OF Cons.prems(1) rest] by blast
    have "cell g' x y = (if cell g x y = Inr EMPTY \<and> (x, y) \<in> set (p # ns)
                          then Inr DANGEROUS else cell g x y)" if "inb n x y" for x y
      using rd' [OF that] c False p by auto
    then show ?thesis using g' c False p by simp
  qed
qed

lemma mark_cells_ok:
  assumes "square (grid_size e) g" "\<forall>(tx, ty) \<in> set cs. inb (grid_size e) tx ty"
  shows "\<exists>g'. mark_cells e g cs = Inr g' \<and> square (grid_size e) g'
           \<and> (\<forall>x y. inb (grid_size e) x y \<longrightarrow>
                 cell g' x y =
                   (if cell g x y = Inr EMPTY
                       \<and> (\<exists>(tx, ty) \<in> set cs. cell g tx ty = Inr TRAP
                             \<and> (x, y) \<in> set (get_neighbors e tx ty))
                    then Inr DANGEROUS else cell g x y))"
  using assms
proof (induction cs arbitrary: g)
  case Nil
  then show ?case by simp
next
  case (Cons p cs)
  let ?n = "grid_size e"
  obtain tx ty where p: "p = (tx, ty)" by (cases p)
  have ib: "inb ?n tx ty" using Cons.prems(2) p by simp
  have rest: "\<forall>(tx, ty) \<in> set cs. inb ?n tx ty" using Cons.prems(2) by simp
  obtain c where c: "cell g tx ty = Inr c" using cell_ok [OF Cons.prems(1) ib] by blast
  show ?case
  proof (cases "c = TRAP")
    case True
    have nb: "\<forall>(nx, ny) \<in> set (get_neighbors e tx ty). inb ?n nx ny"
      using get_neighbors_inb by blast
    obtain g1 where g1: "mark_neighbors g (get_neighbors e tx ty) = Inr g1" "square ?n g1"
      and rd: "\<And>x y. inb ?n x y \<Longrightarrow>
                 cell g1 x y = (if cell g x y = Inr EMPTY \<and> (x, y) \<in> set (get_neighbors e tx ty)
                                then Inr DANGEROUS else cell g x y)"
      using mark_neighbors_ok [OF Cons.prems(1) nb] by blast
    obtain g' where g': "mark_cells e g1 cs = Inr g'" "square ?n g'"
      and rd': "\<And>x y. inb ?n x y \<Longrightarrow>
                 cell g' x y =
                   (if cell g1 x y = Inr EMPTY
                       \<and> (\<exists>(tx, ty) \<in> set cs. cell g1 tx ty = Inr TRAP
                             \<and> (x, y) \<in> set (get_neighbors e tx ty))
                    then Inr DANGEROUS else cell g1 x y)"
      using Cons.IH [OF g1(2) rest] by blast
    have trap_same: "cell g1 x y = Inr TRAP \<longleftrightarrow> cell g x y = Inr TRAP" if "inb ?n x y" for x y
      using rd [OF that] by auto
    have trap_cs: "(\<exists>(ux, uy) \<in> set cs. cell g1 ux uy = Inr TRAP \<and> (x, y) \<in> set (get_neighbors e ux uy))
        \<longleftrightarrow> (\<exists>(ux, uy) \<in> set cs. cell g ux uy = Inr TRAP \<and> (x, y) \<in> set (get_neighbors e ux uy))"
      for x y using rest trap_same by fastforce
    have "cell g' x y =
            (if cell g x y = Inr EMPTY
                \<and> (\<exists>(ux, uy) \<in> set (p # cs). cell g ux uy = Inr TRAP
                      \<and> (x, y) \<in> set (get_neighbors e ux uy))
             then Inr DANGEROUS else cell g x y)" if "inb ?n x y" for x y
      using rd' [OF that] rd [OF that] trap_cs [of x y] c True p by auto
    then show ?thesis using g' g1 c True p by simp
  next
    case False
    obtain g' where g': "mark_cells e g cs = Inr g'" "square ?n g'"
      and rd': "\<And>x y. inb ?n x y \<Longrightarrow>
                 cell g' x y =
                   (if cell g x y = Inr EMPTY
                       \<and> (\<exists>(tx, ty) \<in> set cs. cell g tx ty = Inr TRAP
                             \<and> (x, y) \<in> set (get_neighbors e tx ty))
                    then Inr DANGEROUS else cell g x y)"
      using Cons.IH [OF Cons.prems(1) rest] by blast
    have "cell g' x y =
            (if cell g x y = Inr EMPTY
                \<and> (\<exists>(ux, uy) \<in> set (p # cs). cell g ux uy = Inr TRAP
                      \<and> (x, y) \<in> set (get_neighbors e ux uy))
             then Inr DANGEROUS else cell g x y)" if "inb ?n x y" for x y
      using rd' [OF that] c False p by auto
    then show ?thesis using g' c False p by simp
  qed
qed

lemma set_scan_order: "set (scan_order n) = {(x, y). inb n x y}"
  by (auto simp: scan_order_def inb_def)

lemma mark_dangerous_zones_ok:
  assumes "square (grid_size e) g"
  shows "\<exists>g'. mark_dangerous_zones e g = Inr g' \<and> square (grid_size e) g'
           \<and> (\<forall>x y. inb (grid_size e) x y \<longrightarrow>
                 cell g' x y =
                   (if cell g x y = Inr EMPTY \<and> trap_neighbor e g x y
                    then Inr DANGEROUS else cell g x y))"
proof -
  let ?n = "grid_size e"
  have ib: "\<forall>(tx, ty) \<in> set (scan_order ?n). inb ?n tx ty"
    by (simp add: set_scan_order)
  obtain g' where g': "mark_cells e g (scan_order ?n) = Inr g'" "square ?n g'"
    and rd: "\<And>x y. inb ?n x y \<Longrightarrow>
               cell g' x y =
                 (if cell g x y = Inr EMPTY
                     \<and> (\<exists>(tx, ty) \<in> set (scan_order ?n). cell g tx ty = Inr TRAP
                           \<and> (x, y) \<in> set (get_neighbors e tx ty))
                  then Inr DANGEROUS else cell g x y)"
    using mark_cells_ok [OF assms ib] by blast
  have eq: "(\<exists>(tx, ty) \<in> set (scan_order ?n). cell g tx ty = Inr TRAP
                \<and> (x, y) \<in> set (get_neighbors e tx ty)) \<longleftrightarrow> trap_neighbor e g x y"
    (is "?L \<longleftrightarrow> ?R") if xy: "inb ?n x y" for x y
  proof
    assume ?L
    then obtain tx ty where t: "inb ?n tx ty" "cell g tx ty = Inr TRAP"
        "(x, y) \<in> set (get_neighbors e tx ty)"
      unfolding set_scan_order by blast
    have "(tx, ty) \<in> set (get_neighbors e x y)"
      by (rule get_neighbors_sym [OF t(1) t(3)])
    with t(2) show ?R unfolding trap_neighbor_def list_ex_iff by blast
  next
    assume ?R
    then obtain nx ny where t: "(nx, ny) \<in> set (get_neighbors e x y)" "cell g nx ny = Inr TRAP"
      unfolding trap_neighbor_def list_ex_iff by blast
    have "inb ?n nx ny" by (rule get_neighbors_inb [OF t(1)])
    moreover have "(x, y) \<in> set (get_neighbors e nx ny)"
      by (rule get_neighbors_sym [OF xy t(1)])
    ultimately show ?L unfolding set_scan_order using t(2) by blast
  qed
  have "cell g' x y =
          (if cell g x y = Inr EMPTY \<and> trap_neighbor e g x y
           then Inr DANGEROUS else cell g x y)" if xy: "inb ?n x y" for x y
    unfolding rd [OF xy] eq [OF xy] ..
  then show ?thesis
    using g' unfolding mark_dangerous_zones_def by blast
qed

subsection \<open>Counting traps\<close>

lemma filter_update_le:
  "length (filter P (xs[j := v])) \<le> length (filter P xs) + (if P v then 1 else 0)"
proof (induction xs arbitrary: j)
  case Nil
  then show ?case by simp
next
  case (Cons a xs j)
  show ?case
  proof (cases j)
    case 0
    then show ?thesis by simp
  next
    case (Suc k)
    then show ?thesis using Cons.IH [of k] by (simp split: if_splits)
  qed
qed

lemma sum_list_update_le:
  fixes f :: "'a \<Rightarrow> nat"
  assumes "k < length g" "f r \<le> f (g ! k) + d"
  shows "sum_list (map f (g[k := r])) \<le> sum_list (map f g) + d"
  using assms
proof (induction g arbitrary: k)
  case Nil
  then show ?case by simp
next
  case (Cons a g k)
  show ?case
  proof (cases k)
    case 0
    then show ?thesis using Cons.prems by simp
  next
    case (Suc m)
    then show ?thesis using Cons.IH [of m] Cons.prems by simp
  qed
qed

lemma set_cell_count:
  assumes "square n g" "inb n x y" "set_cell g x y v = Inr g'"
  shows "count_traps g' \<le> count_traps g + (if v = TRAP then 1 else 0)"
proof -
  have g': "g' = g[nat y := (g ! nat y)[nat x := v]]"
    using set_cell_square [OF assms(1,2), of v] assms(3) by simp
  have k: "nat y < length g" using assms(1,2) by (auto simp: square_def inb_def)
  show ?thesis
    unfolding g' count_traps_def
    by (rule sum_list_update_le [OF k]) (rule filter_update_le)
qed

subsection \<open>Trap placement\<close>

lemma place_traps_ok:
  assumes "\<forall>k. 0 \<le> rand k \<and> rand k < grid_size e"
    and "square (grid_size e) g"
    and "only_empty_or_trap (grid_size e) g"
    and "ends_free e g"
    and "count_traps g \<le> traps_placed"
    and "int traps_placed \<le> max 0 trap_count"
  shows "\<exists>g'. place_traps e trap_count rand g traps_placed attempts = Inr g'
           \<and> square (grid_size e) g' \<and> only_empty_or_trap (grid_size e) g'
           \<and> ends_free e g' \<and> int (count_traps g') \<le> max 0 trap_count"
  using assms
proof (induction e trap_count rand g traps_placed attempts rule: place_traps.induct)
  case (1 e trap_count rand g traps_placed attempts)
  let ?n = "grid_size e"
  show ?case
  proof (cases "int traps_placed < trap_count \<and> int attempts < trap_count * 10")
    case False
    have "place_traps e trap_count rand g traps_placed attempts = Inr g"
      by (subst place_traps.simps) (simp add: False)
    then show ?thesis using "1.prems" by auto
  next
    case True
    define x where "x = rand (2 * attempts)"
    define y where "y = rand (2 * attempts + 1)"
    have xy: "inb ?n x y" using "1.prems"(1) by (simp add: inb_def x_def y_def)
    have n: "\<not> ?n - 1 < 0" using xy by (simp add: inb_def)
    have rx: "randint 0 (?n - 1) (rand (2 * attempts)) = Inr x"
      and ry: "randint 0 (?n - 1) (rand (2 * attempts + 1)) = Inr y"
      using n by (simp_all add: randint_def x_def y_def)
    have ry': "randint 0 (?n - 1) (rand (Suc (2 * attempts))) = Inr y"
      using ry by simp
    obtain c where c: "cell g x y = Inr c" using cell_ok [OF "1.prems"(2) xy] by blast
    show ?thesis
    proof (cases "(x, y) \<noteq> start e \<and> (x, y) \<noteq> goal e")
      case False
      have eq: "place_traps e trap_count rand g traps_placed attempts =
                place_traps e trap_count rand g traps_placed (attempts + 1)"
        by (subst place_traps.simps) (simp add: True False rx ry')
      show ?thesis
        unfolding eq
        by (rule "1.IH"(3) [OF True rx ry _ "1.prems"]) (use False in simp)
    next
      case free: True
      show ?thesis
      proof (cases "c \<noteq> TRAP")
        case False
        have eq: "place_traps e trap_count rand g traps_placed attempts =
                  place_traps e trap_count rand g traps_placed (attempts + 1)"
          by (subst place_traps.simps) (simp add: True free False c rx ry')
        show ?thesis
          unfolding eq
          by (rule "1.IH"(2) [OF True rx ry free c _ "1.prems"]) (use False in simp)
      next
        case nt: True
        obtain g1 where g1: "set_cell g x y TRAP = Inr g1" "square ?n g1"
          and rd: "\<And>x' y'. inb ?n x' y' \<Longrightarrow>
                 cell g1 x' y' = (if x' = x \<and> y' = y then Inr TRAP else cell g x' y')"
          using set_cell_ok [OF "1.prems"(2) xy, of TRAP] by blast
        have eq: "place_traps e trap_count rand g traps_placed attempts =
                  place_traps e trap_count rand g1 (traps_placed + 1) (attempts + 1)"
          by (subst place_traps.simps) (simp add: True free nt c rx ry' g1)
        have p3: "only_empty_or_trap ?n g1"
          using "1.prems"(3) rd unfolding only_empty_or_trap_def by simp
        have p4: "ends_free e g1"
          using "1.prems"(4) rd free unfolding ends_free_def by auto
        have p5: "count_traps g1 \<le> traps_placed + 1"
          using set_cell_count [OF "1.prems"(2) xy g1(1)] "1.prems"(5) by simp
        have p6: "int (traps_placed + 1) \<le> max 0 trap_count"
          using True by simp
        show ?thesis
          unfolding eq
          by (rule "1.IH"(1) [OF True rx ry free c nt g1(1) "1.prems"(1) g1(2) p3 p4 p5 p6])
      qed
    qed
  qed
qed

lemma fresh_grid_square: "square n (replicate (nat n) (replicate (nat n) 0))"
  by (simp add: square_def list_all_length)

lemma fresh_grid_cell:
  "inb n x y \<Longrightarrow> cell (replicate (nat n) (replicate (nat n) 0)) x y = Inr EMPTY"
  using cell_square [OF fresh_grid_square, of n x y]
  by (simp add: inb_def EMPTY_def)

lemma count_traps_fresh: "count_traps (replicate k (replicate m 0)) = 0"
  by (simp add: count_traps_def TRAP_def)

lemma place_traps_fresh:
  assumes "\<forall>k. 0 \<le> rand k \<and> rand k < grid_size e"
  shows "\<exists>g'. place_traps e trap_count rand
                (replicate (nat (grid_size e)) (replicate (nat (grid_size e)) 0)) 0 0 = Inr g'
           \<and> square (grid_size e) g' \<and> only_empty_or_trap (grid_size e) g'
           \<and> ends_free e g' \<and> int (count_traps g') \<le> max 0 trap_count"
proof (rule place_traps_ok [OF assms fresh_grid_square])
  show "only_empty_or_trap (grid_size e) (replicate (nat (grid_size e)) (replicate (nat (grid_size e)) 0))"
    unfolding only_empty_or_trap_def using fresh_grid_cell by blast
  show "ends_free e (replicate (nat (grid_size e)) (replicate (nat (grid_size e)) 0))"
    unfolding ends_free_def using fresh_grid_cell by simp
  show "count_traps (replicate (nat (grid_size e)) (replicate (nat (grid_size e)) 0)) \<le> 0"
    by (simp add: count_traps_fresh)
  show "int 0 \<le> max 0 trap_count" by simp
qed

lemma mark_neighbors_count:
  assumes "square n g" "\<forall>(nx, ny) \<in> set ns. inb n nx ny" "mark_neighbors g ns = Inr g'"
  shows "count_traps g' \<le> count_traps g"
  using assms
proof (induction ns arbitrary: g)
  case Nil
  then show ?case by simp
next
  case (Cons p ns g)
  obtain nx ny where p: "p = (nx, ny)" by (cases p)
  have ib: "inb n nx ny" using Cons.prems(2) p by simp
  have rest: "\<forall>(nx, ny) \<in> set ns. inb n nx ny" using Cons.prems(2) by simp
  obtain c where c: "cell g nx ny = Inr c" using cell_ok [OF Cons.prems(1) ib] by blast
  show ?case
  proof (cases "c = EMPTY")
    case True
    obtain g1 where g1: "set_cell g nx ny DANGEROUS = Inr g1" "square n g1"
      using set_cell_ok [OF Cons.prems(1) ib, of DANGEROUS] by blast
    have "mark_neighbors g1 ns = Inr g'" using Cons.prems(3) p c True g1 by simp
    then have "count_traps g' \<le> count_traps g1" by (rule Cons.IH [OF g1(2) rest])
    moreover have "count_traps g1 \<le> count_traps g"
      using set_cell_count [OF Cons.prems(1) ib g1(1)] by simp
    ultimately show ?thesis by simp
  next
    case False
    have "mark_neighbors g ns = Inr g'" using Cons.prems(3) p c False by simp
    then show ?thesis by (rule Cons.IH [OF Cons.prems(1) rest])
  qed
qed

lemma mark_cells_count:
  assumes "square (grid_size e) g" "\<forall>(tx, ty) \<in> set cs. inb (grid_size e) tx ty"
    "mark_cells e g cs = Inr g'"
  shows "count_traps g' \<le> count_traps g"
  using assms
proof (induction cs arbitrary: g)
  case Nil
  then show ?case by simp
next
  case (Cons p cs g)
  let ?n = "grid_size e"
  obtain tx ty where p: "p = (tx, ty)" by (cases p)
  have ib: "inb ?n tx ty" using Cons.prems(2) p by simp
  have rest: "\<forall>(tx, ty) \<in> set cs. inb ?n tx ty" using Cons.prems(2) by simp
  obtain c where c: "cell g tx ty = Inr c" using cell_ok [OF Cons.prems(1) ib] by blast
  show ?case
  proof (cases "c = TRAP")
    case True
    have nb: "\<forall>(nx, ny) \<in> set (get_neighbors e tx ty). inb ?n nx ny"
      using get_neighbors_inb by blast
    obtain g1 where g1: "mark_neighbors g (get_neighbors e tx ty) = Inr g1" "square ?n g1"
      using mark_neighbors_ok [OF Cons.prems(1) nb] by blast
    have "mark_cells e g1 cs = Inr g'" using Cons.prems(3) p c True g1 by simp
    then have "count_traps g' \<le> count_traps g1" by (rule Cons.IH [OF g1(2) rest])
    moreover have "count_traps g1 \<le> count_traps g"
      by (rule mark_neighbors_count [OF Cons.prems(1) nb g1(1)])
    ultimately show ?thesis by simp
  next
    case False
    have "mark_cells e g cs = Inr g'" using Cons.prems(3) p c False by simp
    then show ?thesis by (rule Cons.IH [OF Cons.prems(1) rest])
  qed
qed

lemma mark_dangerous_zones_count:
  assumes "square (grid_size e) g" "mark_dangerous_zones e g = Inr g'"
  shows "count_traps g' \<le> count_traps g"
proof -
  have ib: "\<forall>(tx, ty) \<in> set (scan_order (grid_size e)). inb (grid_size e) tx ty"
    by (simp add: set_scan_order)
  show ?thesis
    by (rule mark_cells_count [OF assms(1) ib]) (use assms(2) in \<open>simp add: mark_dangerous_zones_def\<close>)
qed

lemma trap_neighbor_cong:
  assumes "\<And>x y. inb (grid_size e) x y \<Longrightarrow>
             (cell g2 x y = Inr TRAP \<longleftrightarrow> cell g1 x y = Inr TRAP)"
    and "grid_size e' = grid_size e"
  shows "trap_neighbor e' g2 x y \<longleftrightarrow> trap_neighbor e g1 x y"
proof -
  have nb: "get_neighbors e' x y = get_neighbors e x y"
    using assms(2) by (simp add: get_neighbors_def)
  show ?thesis
    unfolding trap_neighbor_def list_ex_iff nb
    using assms(1) get_neighbors_inb [of _ _ e x y] by blast
qed

section \<open>Construction\<close>

text \<open>
  C2 (as stated: construction with a size below 2 fails with \<open>InvalidSizeError\<close> and
  produces no grid object). The constructor has no failing branch. At size 1 it produces
  a one-cell grid whose start and goal coincide.
\<close>

theorem C2_counterexample:
  "MarioTrapAvoidance 1 = \<lparr>grid_size = 1, grid = [[EMPTY]], start = (0, 0), goal = (0, 0)\<rparr>"
  by (simp add: MarioTrapAvoidance_def EMPTY_def)

text \<open>
  C2 (amended): for every size, also below 2, construction succeeds and keeps the size as
  given: the grid has \<open>max(size, 0)\<close> rows of \<open>max(size, 0)\<close> Empty cells, start is
  \<open>(0, 0)\<close> and goal is \<open>(size - 1, size - 1)\<close>.
\<close>

theorem C2_construction_total:
  "grid_size (MarioTrapAvoidance n) = n
   \<and> length (grid (MarioTrapAvoidance n)) = nat n
   \<and> (\<forall>row \<in> set (grid (MarioTrapAvoidance n)).
         length row = nat n \<and> (\<forall>c \<in> set row. c = EMPTY))
   \<and> start (MarioTrapAvoidance n) = (0, 0)
   \<and> goal (MarioTrapAvoidance n) = (n - 1, n - 1)"
  by (simp add: MarioTrapAvoidance_def EMPTY_def)

theorem C2_construction_total_witness:
  "[EMPTY] \<in> set (grid (MarioTrapAvoidance 1))
   \<and> length (grid (MarioTrapAvoidance 1)) = 1
   \<and> goal (MarioTrapAvoidance 1) = (0, 0)
   \<and> grid (MarioTrapAvoidance (-3)) = []
   \<and> goal (MarioTrapAvoidance (-3)) = (-4, -4)"
  using C2_construction_total [of 1] C2_construction_total [of "-3"]
  by (simp add: MarioTrapAvoidance_def EMPTY_def)

section \<open>Start of the search\<close>

text \<open>
  C7 (as stated: the frontier starts with one entry for the start cell whose priority is
  \<open>h(start)\<close>). On the 2 by 2 grid the entry pushed has priority 0 while
  \<open>h(start) = 2\<close>.
\<close>

theorem C7_counterexample:
  "open_set (initial_state (MarioTrapAvoidance 2)) = [(0, (0, 0))]
   \<and> heuristic (MarioTrapAvoidance 2) (start (MarioTrapAvoidance 2)) = 2"
  by (simp add: initial_state_def heappush_def MarioTrapAvoidance_def heuristic_def)

text \<open>
  C7 (amended): every call of \<open>a_star_search\<close> starts its loop with a frontier of exactly
  one entry, the start cell with priority 0; \<open>g_score[start]\<close> is 0 and \<open>h(start)\<close> is
  stored in \<open>f_score[start]\<close>; nothing is settled yet.
\<close>

theorem C7_initial_frontier:
  "a_star_search e = a_star_loop e (initial_state e)
   \<and> open_set (initial_state e) = [(0, start e)]
   \<and> g_score (initial_state e) (start e) = Some 0
   \<and> f_score (initial_state e) (start e) = Some (heuristic e (start e))
   \<and> visited (initial_state e) = []"
  by (simp add: a_star_search_def initial_state_def heappush_def)

section \<open>The request handler\<close>

text \<open>
  C3 (as stated: a missing, empty or non-square matrix is rejected before the search
  runs). A matrix of one row and two columns is searched and a path is returned; a matrix
  of two rows and one column is searched until a read leaves the row.
\<close>

theorem C3_counterexample:
  "find_path (Some [[0, 0]]) =
     Some (Inr \<lparr>path = [(0, 0)], visited_cells = [(0, 0)], stats_explored = 1,
                stats_pruned = 0, stats_path_length = 1\<rparr>)
   \<and> find_path (Some [[0], [0]]) = Some (Inl IndexError)"
  by code_simp

text \<open>
  C3 (amended): a missing or empty matrix is rejected with the "Grid data required" answer
  before any search; every other matrix, square or not, is searched as it is, with the
  number of its rows as the size.
\<close>

theorem C3_find_path_guard:
  "find_path None = Some (Inl GridDataRequired)
   \<and> find_path (Some []) = Some (Inl GridDataRequired)
   \<and> (g \<noteq> [] \<longrightarrow>
        find_path (Some g) =
          map_option (map_sum id fst)
            (a_star_search \<lparr>grid_size = int (length g), grid = g, start = (0, 0),
                            goal = (int (length g) - 1, int (length g) - 1)\<rparr>))"
  by (simp add: find_path_def MarioTrapAvoidance_def)

theorem C3_find_path_guard_witness:
  "[[0, 0, 0], [0, 0, 0]] \<noteq> ([] :: matrix)
   \<and> find_path (Some [[0, 0, 0], [0, 0, 0]]) =
        map_option (map_sum id fst)
          (a_star_search \<lparr>grid_size = 2, grid = [[0, 0, 0], [0, 0, 0]], start = (0, 0),
                          goal = (1, 1)\<rparr>)"
  using C3_find_path_guard [of "[[0, 0, 0], [0, 0, 0]]"] by simp

section \<open>Hazard derivation and trap placement: the claims\<close>

lemma initialize_grid_classified:
  assumes "\<forall>k. 0 \<le> rand k \<and> rand k < grid_size e"
  shows "\<exists>e'. initialize_grid e trap_count rand = Inr e' \<and> grid_size e' = grid_size e
           \<and> square (grid_size e) (grid e') \<and> classified e'"
proof -
  let ?n = "grid_size e"
  obtain g1 where g1: "place_traps e trap_count rand
        (replicate (nat ?n) (replicate (nat ?n) 0)) 0 0 = Inr g1"
      "square ?n g1" "only_empty_or_trap ?n g1"
    using place_traps_fresh [OF assms] by blast
  obtain g2 where g2: "mark_dangerous_zones e g1 = Inr g2" "square ?n g2"
    and rd: "\<And>x y. inb ?n x y \<Longrightarrow>
               cell g2 x y = (if cell g1 x y = Inr EMPTY \<and> trap_neighbor e g1 x y
                              then Inr DANGEROUS else cell g1 x y)"
    using mark_dangerous_zones_ok [OF g1(2)] by blast
  let ?e' = "e\<lparr>grid := g2\<rparr>"
  have run: "initialize_grid e trap_count rand = Inr ?e'"
    by (simp add: initialize_grid_def g1(1) g2(1))
  have same: "cell g2 x y = Inr TRAP \<longleftrightarrow> cell g1 x y = Inr TRAP" if "inb ?n x y" for x y
    using rd [OF that] by simp
  have tn: "trap_neighbor ?e' g2 x y \<longleftrightarrow> trap_neighbor e g1 x y" for x y
    by (rule trap_neighbor_cong [OF same]) simp_all
  have "classified ?e'"
    unfolding classified_def
  proof (intro allI impI)
    fix x y assume "inb (grid_size ?e') x y"
    then have xy: "inb ?n x y" by simp
    have c1: "cell g1 x y = Inr EMPTY \<or> cell g1 x y = Inr TRAP"
      using g1(3) xy unfolding only_empty_or_trap_def by blast
    show "(cell (grid ?e') x y = Inr DANGEROUS \<longleftrightarrow>
             cell (grid ?e') x y \<noteq> Inr TRAP \<and> trap_neighbor ?e' (grid ?e') x y)
          \<and> (cell (grid ?e') x y = Inr DANGEROUS \<or> cell (grid ?e') x y = Inr TRAP
               \<or> cell (grid ?e') x y = Inr EMPTY)"
      using c1 rd [OF xy] tn [of x y] by auto
  qed
  then show ?thesis using run g2(2) by auto
qed

lemma place_traps_no_room:
  assumes "grid_size e \<le> 0" "place_traps e trap_count rand g traps_placed attempts = Inr g'"
  shows "g' = g"
proof (cases "int traps_placed < trap_count \<and> int attempts < trap_count * 10")
  case True
  have "randint 0 (grid_size e - 1) (rand (2 * attempts)) = Inl ValueError"
    using assms(1) by (simp add: randint_def)
  then have "place_traps e trap_count rand g traps_placed attempts = Inl ValueError"
    by (subst place_traps.simps) (simp add: True)
  then show ?thesis using assms(2) by simp
next
  case False
  have "place_traps e trap_count rand g traps_placed attempts = Inr g"
    by (subst place_traps.simps) (simp add: False)
  then show ?thesis using assms(2) by simp
qed

lemma initialize_grid_no_room:
  assumes "grid_size e \<le> 0" "initialize_grid e trap_count rand = Inr e'"
  shows "grid_size e' = grid_size e \<and> square (grid_size e) (grid e') \<and> classified e'"
proof -
  have n: "nat (grid_size e) = 0" using assms(1) by simp
  obtain g1 where g1: "place_traps e trap_count rand [] 0 0 = Inr g1"
    and r: "(case mark_dangerous_zones e g1 of Inl err \<Rightarrow> Inl err
             | Inr g2 \<Rightarrow> Inr (e\<lparr>grid := g2\<rparr>)) = Inr e'"
    using assms(2) by (auto simp: initialize_grid_def n split: sum.splits)
  have "g1 = []" by (rule place_traps_no_room [OF assms(1) g1])
  moreover have "scan_order (grid_size e) = []"
    using assms(1) by (simp add: scan_order_def)
  ultimately have e': "e' = e\<lparr>grid := []\<rparr>"
    using r by (simp add: mark_dangerous_zones_def)
  have "\<not> inb (grid_size e) x y" for x y using assms(1) by (simp add: inb_def)
  then show ?thesis unfolding e' by (simp add: square_def classified_def n)
qed

text \<open>
  C4: every grid that \<open>initialize_grid\<close> produces (trap placement followed by the marking
  pass, each draw within \<open>0 .. N - 1\<close> as \<open>randint\<close> returns it) is classified: an
  in-bounds cell is Dangerous if and only if it is not a Trap and one of its in-bounds
  4-neighbours is a Trap, and every cell is Dangerous, Trap or Empty. For a size of at
  least 1 a grid is always produced.
\<close>

theorem C4_dangerous_iff_trap_neighbor:
  assumes "0 < grid_size e \<longrightarrow> (\<forall>k. 0 \<le> rand k \<and> rand k < grid_size e)"
  shows "(0 < grid_size e \<longrightarrow> (\<exists>e'. initialize_grid e trap_count rand = Inr e'))
         \<and> (\<forall>e'. initialize_grid e trap_count rand = Inr e' \<longrightarrow>
               grid_size e' = grid_size e \<and> square (grid_size e) (grid e') \<and> classified e')"
proof (cases "0 < grid_size e")
  case True
  then have "\<forall>k. 0 \<le> rand k \<and> rand k < grid_size e" using assms by blast
  from initialize_grid_classified [OF this, of trap_count] show ?thesis by auto
next
  case False
  then have "grid_size e \<le> 0" by simp
  from initialize_grid_no_room [OF this] False show ?thesis by blast
qed

theorem C4_dangerous_iff_trap_neighbor_witness:
  "0 < grid_size (MarioTrapAvoidance 3)
   \<and> (\<forall>k. 0 \<le> draws_mod 3 k \<and> draws_mod 3 k < grid_size (MarioTrapAvoidance 3))
   \<and> initialize_grid (MarioTrapAvoidance 3) 3 (draws_mod 3) =
        Inr \<lparr>grid_size = 3, grid = [[2, 2, 1], [1, 2, 2], [2, 1, 2]],
             start = (0, 0), goal = (2, 2)\<rparr>
   \<and> classified \<lparr>grid_size = 3, grid = [[2, 2, 1], [1, 2, 2], [2, 1, 2]],
                   start = (0, 0), goal = (2, 2)\<rparr>"
proof -
  have n: "0 < grid_size (MarioTrapAvoidance 3)" by (simp add: MarioTrapAvoidance_def)
  have h: "\<forall>k. 0 \<le> draws_mod 3 k \<and> draws_mod 3 k < grid_size (MarioTrapAvoidance 3)"
    by (simp add: draws_mod_def MarioTrapAvoidance_def)
  have ev: "initialize_grid (MarioTrapAvoidance 3) 3 (draws_mod 3) =
        Inr \<lparr>grid_size = 3, grid = [[2, 2, 1], [1, 2, 2], [2, 1, 2]],
             start = (0, 0), goal = (2, 2)\<rparr>"
    by code_simp
  show ?thesis
    using C4_dangerous_iff_trap_neighbor [of "MarioTrapAvoidance 3" "draws_mod 3" 3] n h ev
    by blast
qed

text \<open>
  C5: the marking pass is idempotent: on every square grid it returns a grid on which a
  second pass returns the same grid.
\<close>

theorem C5_classify_idempotent:
  assumes "square (grid_size e) g"
  shows "\<exists>g1. mark_dangerous_zones e g = Inr g1 \<and> mark_dangerous_zones e g1 = Inr g1"
proof -
  let ?n = "grid_size e"
  obtain g1 where g1: "mark_dangerous_zones e g = Inr g1" "square ?n g1"
    and rd1: "\<And>x y. inb ?n x y \<Longrightarrow>
               cell g1 x y = (if cell g x y = Inr EMPTY \<and> trap_neighbor e g x y
                              then Inr DANGEROUS else cell g x y)"
    using mark_dangerous_zones_ok [OF assms] by blast
  obtain g2 where g2: "mark_dangerous_zones e g1 = Inr g2" "square ?n g2"
    and rd2: "\<And>x y. inb ?n x y \<Longrightarrow>
               cell g2 x y = (if cell g1 x y = Inr EMPTY \<and> trap_neighbor e g1 x y
                              then Inr DANGEROUS else cell g1 x y)"
    using mark_dangerous_zones_ok [OF g1(2)] by blast
  have same: "cell g1 x y = Inr TRAP \<longleftrightarrow> cell g x y = Inr TRAP" if "inb ?n x y" for x y
    using rd1 [OF that] by simp
  have tn: "trap_neighbor e g1 x y \<longleftrightarrow> trap_neighbor e g x y" for x y
    by (rule trap_neighbor_cong [OF same]) simp_all
  have "cell g2 x y = cell g1 x y" if "inb ?n x y" for x y
    using rd2 [OF that] rd1 [OF that] tn [of x y] by auto
  then have "g2 = g1" by (intro square_ext [OF g2(2) g1(2)])
  then show ?thesis using g1(1) g2(1) by simp
qed

theorem C5_classify_idempotent_witness:
  "square (grid_size (MarioTrapAvoidance 3)) [[0, 0, 0], [0, 1, 0], [0, 0, 0]]
   \<and> mark_dangerous_zones (MarioTrapAvoidance 3) [[0, 0, 0], [0, 1, 0], [0, 0, 0]]
       = Inr [[0, 2, 0], [2, 1, 2], [0, 2, 0]]
   \<and> mark_dangerous_zones (MarioTrapAvoidance 3) [[0, 2, 0], [2, 1, 2], [0, 2, 0]]
       = Inr [[0, 2, 0], [2, 1, 2], [0, 2, 0]]"
proof -
  have sq: "square (grid_size (MarioTrapAvoidance 3)) [[0, 0, 0], [0, 1, 0], [0, 0, 0]]"
    by (simp add: square_def MarioTrapAvoidance_def)
  have ev: "mark_dangerous_zones (MarioTrapAvoidance 3) [[0, 0, 0], [0, 1, 0], [0, 0, 0]]
       = Inr [[0, 2, 0], [2, 1, 2], [0, 2, 0]]"
    by code_simp
  show ?thesis
    using C5_classify_idempotent [OF sq] sq ev by auto
qed

text \<open>
  C6: for every size \<open>N \<ge> 2\<close>, every non-negative \<open>trap_count\<close> and every sequence of
  draws within \<open>0 .. N - 1\<close> (the range of \<open>random.randint(0, N - 1)\<close>), trap placement
  completes and returns a grid on which the start cell \<open>(0, 0)\<close> and the goal cell
  \<open>(N - 1, N - 1)\<close> are Empty, hence not Trap, and the number of Trap cells is at most
  \<open>trap_count\<close>; the same cells are not Trap and the same bound holds on the grid that
  \<open>initialize_grid\<close> leaves after the marking pass.
\<close>

theorem C6_traps_bounded_ends_free:
  assumes "2 \<le> n" "0 \<le> trap_count" "\<forall>k. 0 \<le> rand k \<and> rand k < n"
  shows "\<exists>g e'. place_traps (MarioTrapAvoidance n) trap_count rand
                   (grid (MarioTrapAvoidance n)) 0 0 = Inr g
           \<and> cell g 0 0 = Inr EMPTY \<and> cell g (n - 1) (n - 1) = Inr EMPTY
           \<and> cell g 0 0 \<noteq> Inr TRAP \<and> cell g (n - 1) (n - 1) \<noteq> Inr TRAP
           \<and> int (count_traps g) \<le> trap_count
           \<and> initialize_grid (MarioTrapAvoidance n) trap_count rand = Inr e'
           \<and> cell (grid e') 0 0 \<noteq> Inr TRAP \<and> cell (grid e') (n - 1) (n - 1) \<noteq> Inr TRAP
           \<and> int (count_traps (grid e')) \<le> trap_count"
proof -
  let ?e = "MarioTrapAvoidance n"
  have n: "grid_size ?e = n" and st: "start ?e = (0, 0)" and gl: "goal ?e = (n - 1, n - 1)"
    and gr: "grid ?e = replicate (nat n) (replicate (nat n) 0)"
    by (simp_all add: MarioTrapAvoidance_def)
  have r: "\<forall>k. 0 \<le> rand k \<and> rand k < grid_size ?e" using assms(3) n by simp
  obtain g1 where g1: "place_traps ?e trap_count rand
        (replicate (nat n) (replicate (nat n) 0)) 0 0 = Inr g1"
      "square n g1" "only_empty_or_trap n g1" "ends_free ?e g1"
      "int (count_traps g1) \<le> max 0 trap_count"
    using place_traps_fresh [OF r, of trap_count] unfolding n by blast
  have b1: "int (count_traps g1) \<le> trap_count" using g1(5) assms(2) by simp
  have ib0: "inb n 0 0" and ibn: "inb n (n - 1) (n - 1)"
    using assms(1) by (simp_all add: inb_def)
  have s1: "cell g1 0 0 = Inr EMPTY"
    using g1(3,4) ib0 unfolding only_empty_or_trap_def ends_free_def n st by blast
  have s2: "cell g1 (n - 1) (n - 1) = Inr EMPTY"
    using g1(3,4) ibn unfolding only_empty_or_trap_def ends_free_def n gl by blast
  have t1: "cell g1 0 0 \<noteq> Inr TRAP" using s1 by simp
  have t2: "cell g1 (n - 1) (n - 1) \<noteq> Inr TRAP" using s2 by simp
  obtain g2 where g2: "mark_dangerous_zones ?e g1 = Inr g2"
    and rd: "\<And>x y. inb n x y \<Longrightarrow>
               cell g2 x y = (if cell g1 x y = Inr EMPTY \<and> trap_neighbor ?e g1 x y
                              then Inr DANGEROUS else cell g1 x y)"
    using mark_dangerous_zones_ok [of ?e g1] g1(2) unfolding n by blast
  have run: "initialize_grid ?e trap_count rand = Inr (?e\<lparr>grid := g2\<rparr>)"
    using g1(1) g2 by (simp add: initialize_grid_def n)
  have f1: "cell g2 0 0 \<noteq> Inr TRAP" using rd [OF ib0] s1 by simp
  have f2: "cell g2 (n - 1) (n - 1) \<noteq> Inr TRAP" using rd [OF ibn] s2 by simp
  have "count_traps g2 \<le> count_traps g1"
    using mark_dangerous_zones_count [of ?e g1 g2] g1(2) g2 unfolding n by blast
  then have f3: "int (count_traps g2) \<le> trap_count" using b1 by linarith
  show ?thesis
    using g1(1) b1 s1 s2 t1 t2 run f1 f2 f3 unfolding gr by auto
qed

theorem C6_traps_bounded_ends_free_witness:
  "(2::int) \<le> 3 \<and> (0::int) \<le> 3
   \<and> (\<forall>k. 0 \<le> draws_mod 3 k \<and> draws_mod 3 k < 3)
   \<and> place_traps (MarioTrapAvoidance 3) 3 (draws_mod 3) (grid (MarioTrapAvoidance 3)) 0 0
       = Inr [[0, 0, 1], [1, 0, 0], [0, 1, 0]]
   \<and> cell [[0, 0, 1], [1, 0, 0], [0, 1, 0]] 0 0 = Inr EMPTY
   \<and> cell [[0, 0, 1], [1, 0, 0], [0, 1, 0]] (3 - 1) (3 - 1) = Inr EMPTY
   \<and> int (count_traps [[0, 0, 1], [1, 0, 0], [0, 1, 0]]) \<le> 3"
proof -
  have h: "\<forall>k. 0 \<le> draws_mod 3 k \<and> draws_mod 3 k < 3"
    by (simp add: draws_mod_def)
  have ev: "place_traps (MarioTrapAvoidance 3) 3 (draws_mod 3) (grid (MarioTrapAvoidance 3)) 0 0
       = Inr [[0, 0, 1], [1, 0, 0], [0, 1, 0]]"
    by code_simp
  show ?thesis
    using C6_traps_bounded_ends_free [of 3 3 "draws_mod 3"] h ev by auto
qed

section \<open>The search: what every run satisfies\<close>

lemma is_safe_path_cell:
  "is_safe_path e x y = Inr b \<Longrightarrow> \<exists>c. cell (grid e) x y = Inr c"
  by (auto simp: is_safe_path_def split: sum.splits)

lemma visit_neighbor_relax:
  assumes "is_safe_path e (fst nb) (snd nb) = Inr b"
  shows "visit_neighbor e cur nb st = Inr (relax e cur nb st)"
proof -
  obtain c where c: "cell (grid e) (fst nb) (snd nb) = Inr c"
    using is_safe_path_cell [OF assms] by blast
  show ?thesis
  proof (cases "g_score st cur")
    case None
    then show ?thesis
      using assms c by (simp add: visit_neighbor_def relax_def safe_def)
  next
    case (Some gc)
    then show ?thesis
      using assms c
      by (simp add: visit_neighbor_def relax_def safe_def move_cost_def Let_def)
  qed
qed

lemma visit_neighbor_Inr:
  assumes "visit_neighbor e cur nb st = Inr st'"
  shows "st' = relax e cur nb st"
proof -
  obtain b where "is_safe_path e (fst nb) (snd nb) = Inr b"
    using assms by (auto simp: visit_neighbor_def split: sum.splits)
  from visit_neighbor_relax [OF this, of cur st] assms show ?thesis by simp
qed

lemma explore_neighbors_Inr:
  "explore_neighbors e cur ns st = Inr st' \<Longrightarrow> st' = fold (relax e cur) ns st"
proof (induction ns arbitrary: st)
  case Nil
  then show ?case by simp
next
  case (Cons nb ns st)
  then obtain st1 where s: "visit_neighbor e cur nb st = Inr st1"
      "explore_neighbors e cur ns st1 = Inr st'"
    by (auto split: sum.splits)
  show ?case using Cons.IH [OF s(2)] visit_neighbor_Inr [OF s(1)] by simp
qed

lemma explore_neighbors_total:
  assumes "\<forall>nb \<in> set ns. \<exists>b. is_safe_path e (fst nb) (snd nb) = Inr b"
  shows "explore_neighbors e cur ns st = Inr (fold (relax e cur) ns st)"
  using assms
proof (induction ns arbitrary: st)
  case Nil
  then show ?case by simp
next
  case (Cons nb ns st)
  obtain b where "is_safe_path e (fst nb) (snd nb) = Inr b" using Cons.prems by auto
  then have "visit_neighbor e cur nb st = Inr (relax e cur nb st)"
    by (rule visit_neighbor_relax)
  then show ?case using Cons.IH [of "relax e cur nb st"] Cons.prems by simp
qed

lemma relax_visited [simp]: "visited (relax e cur nb st) = visited st"
  by (simp add: relax_def Let_def split: option.splits)

lemma fold_relax_visited [simp]: "visited (fold (relax e cur) ns st) = visited st"
  by (induction ns arbitrary: st) simp_all

subsection \<open>The heap\<close>

lemma fold_min_in: "fold min xs (x::'a::linorder) \<in> set (x # xs)"
proof (induction xs arbitrary: x)
  case Nil
  then show ?case by simp
next
  case (Cons a xs x)
  show ?case using Cons.IH [of "min a x"] by (auto simp: min_def split: if_splits)
qed

lemma fold_min_le: "\<forall>y \<in> set (x # xs). fold min xs (x::'a::linorder) \<le> y"
proof (induction xs arbitrary: x)
  case Nil
  then show ?case by simp
next
  case (Cons a xs x)
  have IH: "\<forall>y \<in> set (min a x # xs). fold min xs (min a x) \<le> y" by (rule Cons.IH)
  then have m: "fold min xs (min a x) \<le> min a x" by simp
  have "fold min xs (min a x) \<le> a" "fold min xs (min a x) \<le> x"
    using m by (simp_all add: min_def split: if_splits)
  then show ?case using IH by simp
qed

lemma heappop_nonempty:
  assumes "h \<noteq> []"
  shows "\<exists>item. heappop h = Inr (item, remove1 item h) \<and> item \<in> set h
           \<and> (\<forall>y \<in> set h. item \<le> y)"
proof -
  obtain x xs where h: "h = x # xs" using assms by (cases h) auto
  show ?thesis
    unfolding h using fold_min_in [of xs x] fold_min_le [of x xs]
    by (simp add: heappop_def Let_def)
qed

lemma length_remove1_less: "x \<in> set xs \<Longrightarrow> length (remove1 x xs) < length xs"
  by (simp add: length_remove1) (cases xs; simp)

lemma prio_le: "(a, p) \<le> (b, q) \<Longrightarrow> a \<le> (b::int)" for p q :: pos
  by (auto simp: less_eq_prod_def)

subsection \<open>Following \<open>came_from\<close>\<close>

lemma reconstruct_loop_total:
  assumes "chain_ok g cf"
  shows "\<exists>sfx. reconstruct_loop cf cur acc = Some (acc @ sfx) \<and> chain cf (cur # sfx)"
proof (induction "case g cur of None \<Rightarrow> 0 | Some v \<Rightarrow> nat v" arbitrary: cur acc
    rule: less_induct)
  case less
  show ?case
  proof (cases "cf cur")
    case None
    then have "reconstruct_loop cf cur acc = Some acc"
      by (subst reconstruct_loop.simps) simp
    then show ?thesis using None by simp
  next
    case (Some prev)
    obtain gu gv where g: "g prev = Some gu" "g cur = Some gv" "gu < gv"
      using assms Some unfolding chain_ok_def by blast
    have "0 \<le> gu" using assms g(1) unfolding chain_ok_def by blast
    then have "(case g prev of None \<Rightarrow> 0 | Some v \<Rightarrow> nat v)
        < (case g cur of None \<Rightarrow> 0 | Some v \<Rightarrow> nat v)"
      using g by simp
    from less [OF this, of "acc @ [prev]"] obtain sfx where
      sfx: "reconstruct_loop cf prev (acc @ [prev]) = Some ((acc @ [prev]) @ sfx)"
        "chain cf (prev # sfx)" by blast
    have "reconstruct_loop cf cur acc = reconstruct_loop cf prev (acc @ [prev])"
      by (subst reconstruct_loop.simps) (simp add: Some)
    then show ?thesis using sfx Some by simp
  qed
qed

lemma reconstruct_path_total:
  assumes "chain_ok g cf"
  shows "\<exists>sfx. reconstruct_path cf cur = Some (rev (cur # sfx)) \<and> chain cf (cur # sfx)"
  using reconstruct_loop_total [OF assms, of cur "[cur]"]
  by (auto simp: reconstruct_path_def)

lemma chain_butlast: "chain cf xs \<Longrightarrow> v \<in> set (butlast xs) \<Longrightarrow> cf v \<noteq> None"
  by (induction cf xs rule: chain.induct) (auto split: if_splits)

lemma tl_rev: "tl (rev xs) = rev (butlast xs)"
  by (induction xs) (auto simp: butlast_append)

subsection \<open>What every state of the loop satisfies\<close>

lemma score_less_Some_iff:
  "score_less (Some t) x \<longleftrightarrow> x = None \<or> (\<exists>b. x = Some b \<and> t < b)"
  by (cases x) simp_all

lemma move_cost_pos: "1 \<le> move_cost e p"
  by (simp add: move_cost_def)

lemma relax_cases:
  obtains (pruned) "\<not> safe e nb" "relax e cur nb st = st\<lparr>pruned := pruned st + 1\<rparr>"
  | (same) "relax e cur nb st = st"
      "safe e nb \<Longrightarrow> g_score st cur = None
         \<or> (\<exists>gc gn. g_score st cur = Some gc \<and> g_score st nb = Some gn
               \<and> gn \<le> gc + move_cost e nb)"
  | (better) gc where "safe e nb" "g_score st cur = Some gc"
      "score_less (Some (gc + move_cost e nb)) (g_score st nb)"
      "relax e cur nb st =
         st\<lparr>came_from := (came_from st)(nb \<mapsto> cur),
            g_score := (g_score st)(nb \<mapsto> gc + move_cost e nb),
            f_score := (f_score st)(nb \<mapsto> gc + move_cost e nb + heuristic e nb),
            open_set := open_set st @ [(gc + move_cost e nb + heuristic e nb, nb)]\<rparr>"
proof (cases "safe e nb")
  case False
  have "relax e cur nb st = st\<lparr>pruned := pruned st + 1\<rparr>"
    using False by (simp add: relax_def)
  then show ?thesis by (rule pruned [OF False])
next
  case sf: True
  show ?thesis
  proof (cases "g_score st cur")
    case None
    have "relax e cur nb st = st" using sf None by (simp add: relax_def)
    then show ?thesis by (rule same) (simp add: None)
  next
    case (Some gc)
    show ?thesis
    proof (cases "score_less (Some (gc + move_cost e nb)) (g_score st nb)")
      case True
      have "relax e cur nb st =
         st\<lparr>came_from := (came_from st)(nb \<mapsto> cur),
            g_score := (g_score st)(nb \<mapsto> gc + move_cost e nb),
            f_score := (f_score st)(nb \<mapsto> gc + move_cost e nb + heuristic e nb),
            open_set := open_set st @ [(gc + move_cost e nb + heuristic e nb, nb)]\<rparr>"
        using sf Some True by (simp add: relax_def Let_def heappush_def)
      then show ?thesis by (rule better [OF sf Some True])
    next
      case False
      then have d: "\<exists>gn. g_score st nb = Some gn \<and> gn \<le> gc + move_cost e nb"
        by (auto simp: score_less_Some_iff)
      have "relax e cur nb st = st" using sf Some False by (simp add: relax_def Let_def)
      then show ?thesis by (rule same) (use d Some in simp)
    qed
  qed
qed

lemma relax_basic_inv:
  assumes "basic_inv e st"
  shows "basic_inv e (relax e cur nb st)"
proof (cases rule: relax_cases [of e nb cur st])
  case pruned
  then show ?thesis using assms by (simp add: basic_inv_def)
next
  case same
  then show ?thesis using assms by simp
next
  case (better gc)
  let ?t = "gc + move_cost e nb"
  have ok: "chain_ok (g_score st) (came_from st)"
    and sf: "\<And>v u. came_from st v = Some u \<Longrightarrow> safe e v"
    and root: "\<And>v. g_score st v \<noteq> None \<Longrightarrow> came_from st v = None \<Longrightarrow> v = start e"
    and g0: "g_score st (start e) = Some 0"
    and op: "\<And>item. item \<in> set (open_set st) \<Longrightarrow> g_score st (snd item) \<noteq> None"
    using assms unfolding basic_inv_def by blast+
  have nonneg: "\<And>v gv. g_score st v = Some gv \<Longrightarrow> 0 \<le> gv"
    and dec: "\<And>v u. came_from st v = Some u \<Longrightarrow>
               \<exists>gu gv. g_score st u = Some gu \<and> g_score st v = Some gv \<and> gu < gv"
    using ok unfolding chain_ok_def by blast+
  have gc0: "0 \<le> gc" using nonneg better(2) by blast
  have lt: "g_score st nb = None \<or> (\<exists>b. g_score st nb = Some b \<and> ?t < b)"
    using better(3) by (simp add: score_less_Some_iff)
  have ne: "cur \<noteq> nb" using lt better(2) move_cost_pos [of e nb] by auto
  have ns: "nb \<noteq> start e" using lt g0 gc0 move_cost_pos [of e nb] by auto
  have c1: "\<forall>v gv. ((g_score st)(nb \<mapsto> ?t)) v = Some gv \<longrightarrow> 0 \<le> gv"
    using nonneg gc0 move_cost_pos [of e nb] by auto
  have c2: "\<exists>gu gv. ((g_score st)(nb \<mapsto> ?t)) u = Some gu
              \<and> ((g_score st)(nb \<mapsto> ?t)) v = Some gv \<and> gu < gv"
    if "((came_from st)(nb \<mapsto> cur)) v = Some u" for v u
  proof (cases "v = nb")
    case True
    then have "u = cur" using that by simp
    then show ?thesis using True ne better(2) move_cost_pos [of e nb] by simp
  next
    case False
    then have cf: "came_from st v = Some u" using that by simp
    obtain gu gv where g: "g_score st u = Some gu" "g_score st v = Some gv" "gu < gv"
      using dec [OF cf] by blast
    show ?thesis
    proof (cases "u = nb")
      case True
      then have "?t < gu" using lt g(1) by auto
      then show ?thesis using True False g by simp
    next
      case un: False
      then show ?thesis using False g by simp
    qed
  qed
  have c3: "\<forall>v u. ((came_from st)(nb \<mapsto> cur)) v = Some u \<longrightarrow> safe e v"
    using sf better(1) by auto
  have c4: "\<forall>v. ((g_score st)(nb \<mapsto> ?t)) v \<noteq> None \<longrightarrow>
              ((came_from st)(nb \<mapsto> cur)) v = None \<longrightarrow> v = start e"
    using root by auto
  have c5: "((g_score st)(nb \<mapsto> ?t)) (start e) = Some 0"
    using g0 ns by simp
  have c6: "\<forall>item \<in> set (open_set st @ [(?t + heuristic e nb, nb)]).
              ((g_score st)(nb \<mapsto> ?t)) (snd item) \<noteq> None"
    using op by auto
  show ?thesis
    unfolding better(4) basic_inv_def chain_ok_def
    using c1 c2 c3 c4 c5 c6 by simp
qed

lemma fold_relax_basic_inv:
  "basic_inv e st \<Longrightarrow> basic_inv e (fold (relax e cur) ns st)"
  by (induction ns arbitrary: st) (simp_all add: relax_basic_inv)

lemma basic_inv_initial: "basic_inv e (initial_state e)"
  by (simp add: basic_inv_def chain_ok_def initial_state_def heappush_def)

lemma basic_inv_remove1:
  "basic_inv e st \<Longrightarrow> basic_inv e (st\<lparr>open_set := remove1 item (open_set st)\<rparr>)"
  unfolding basic_inv_def using set_remove1_subset [of item "open_set st"] by auto

lemma chain_last: "chain cf xs \<Longrightarrow> cf (last xs) = None"
  by (induction cf xs rule: chain.induct) auto

lemma chain_defined:
  assumes "chain cf xs" "g (hd xs) \<noteq> None" "\<forall>v u. cf v = Some u \<longrightarrow> g u \<noteq> None"
  shows "g (last xs) \<noteq> None"
  using assms
proof (induction cf xs rule: chain.induct)
  case (1 cf)
  then show ?case by simp
next
  case (2 cf x)
  then show ?case by simp
next
  case (3 cf x y ys)
  have "cf x = Some y" "chain cf (y # ys)" using "3.prems"(1) by simp_all
  moreover have "g y \<noteq> None" using "3.prems"(3) \<open>cf x = Some y\<close> by blast
  ultimately have "g (last (y # ys)) \<noteq> None" using "3.IH" "3.prems"(3) by simp
  then show ?case by simp
qed

subsection \<open>Unfolding the loop once\<close>

lemma loop_empty:
  "open_set st = [] \<Longrightarrow> a_star_loop e st = Some (Inr (no_path_result st, e))"
  by (subst a_star_loop.simps) (simp add: no_path_result_def)

lemma loop_stale:
  assumes "open_set st \<noteq> []" "heappop (open_set st) = Inr (item, rest)"
    "snd item \<in> set (visited st)"
  shows "a_star_loop e st = a_star_loop e (st\<lparr>open_set := rest\<rparr>)"
  by (subst a_star_loop.simps) (simp add: assms)

lemma loop_goal:
  assumes "open_set st \<noteq> []" "heappop (open_set st) = Inr (item, remove1 item (open_set st))"
    "snd item \<notin> set (visited st)" "snd item = goal e"
  shows "a_star_loop e st =
           (case reconstruct_path (came_from st) (goal e) of None \<Rightarrow> None
            | Some p \<Rightarrow> Some (Inr (found_result p (settle st item), e)))"
proof -
  have nv: "goal e \<notin> set (visited st)" using assms(3,4) by simp
  show ?thesis
    by (subst a_star_loop.simps)
      (simp add: assms(1,2,4) nv found_result_def settle_def Let_def split: option.splits)
qed

lemma loop_expand:
  assumes "open_set st \<noteq> []" "heappop (open_set st) = Inr (item, remove1 item (open_set st))"
    "snd item \<notin> set (visited st)" "snd item \<noteq> goal e"
  shows "a_star_loop e st =
           (case explore_neighbors e (snd item)
                   (get_neighbors e (fst (snd item)) (snd (snd item))) (settle st item) of
              Inl err \<Rightarrow> Some (Inl err)
            | Inr st2 \<Rightarrow> a_star_loop e st2)"
  by (subst a_star_loop.simps) (simp add: assms settle_def Let_def)

lemma finite_universe: "finite (universe e)"
  by (simp add: universe_def)

lemma get_neighbors_outside:
  assumes "(x, y) \<notin> universe e"
  shows "get_neighbors e x y = []"
proof (rule ccontr)
  assume "get_neighbors e x y \<noteq> []"
  then obtain p where "p \<in> set (get_neighbors e x y)"
    by (cases "get_neighbors e x y") auto
  moreover obtain nx ny where "p = (nx, ny)" by (cases p)
  ultimately have "inb (grid_size e) nx ny" "\<bar>nx - x\<bar> + \<bar>ny - y\<bar> = 1"
    using get_neighbors_iff [of nx ny e x y] by simp_all
  then have "- 1 \<le> x \<and> x \<le> grid_size e \<and> - 1 \<le> y \<and> y \<le> grid_size e"
    unfolding inb_def by linarith
  then show False using assms by (simp add: universe_def)
qed

lemma card_universe_less:
  assumes "p \<in> universe e" "p \<notin> set vs"
  shows "card (universe e - set (vs @ [p])) < card (universe e - set vs)"
proof (rule psubset_card_mono)
  show "finite (universe e - set vs)" using finite_universe by simp
  show "universe e - set (vs @ [p]) \<subset> universe e - set vs" using assms by auto
qed

lemma card_universe_same:
  assumes "p \<notin> universe e"
  shows "card (universe e - set (vs @ [p])) = card (universe e - set vs)"
proof -
  have "universe e - set (vs @ [p]) = universe e - set vs" using assms by auto
  then show ?thesis by simp
qed

lemma wf_loop_order: "wf (loop_order e)"
  unfolding loop_order_def by (intro wf_inv_image wf_lex_prod wf_less_than)

lemma a_star_loop_rule:
  assumes init: "I st0"
    and stale: "\<And>st item. I st \<Longrightarrow> item \<in> set (open_set st) \<Longrightarrow>
        (\<forall>y \<in> set (open_set st). item \<le> y) \<Longrightarrow> snd item \<in> set (visited st) \<Longrightarrow>
        I (st\<lparr>open_set := remove1 item (open_set st)\<rparr>)"
    and expand: "\<And>st item. I st \<Longrightarrow> item \<in> set (open_set st) \<Longrightarrow>
        (\<forall>y \<in> set (open_set st). item \<le> y) \<Longrightarrow> snd item \<notin> set (visited st) \<Longrightarrow>
        snd item \<noteq> goal e \<Longrightarrow>
        (case explore_neighbors e (snd item)
                (get_neighbors e (fst (snd item)) (snd (snd item))) (settle st item) of
           Inl err \<Rightarrow> Q (Inl err)
         | Inr st2 \<Rightarrow> I st2)"
    and found: "\<And>st item. I st \<Longrightarrow> item \<in> set (open_set st) \<Longrightarrow>
        (\<forall>y \<in> set (open_set st). item \<le> y) \<Longrightarrow> snd item \<notin> set (visited st) \<Longrightarrow>
        snd item = goal e \<Longrightarrow>
        \<exists>p. reconstruct_path (came_from st) (goal e) = Some p
           \<and> Q (Inr (found_result p (settle st item), e))"
    and empty: "\<And>st. I st \<Longrightarrow> open_set st = [] \<Longrightarrow> Q (Inr (no_path_result st, e))"
  shows "\<exists>out. a_star_loop e st0 = Some out \<and> Q out"
  using init
proof (induction st0 rule: wf_induct_rule [OF wf_loop_order [of e]])
  case (1 st)
  show ?case
  proof (cases "open_set st = []")
    case True
    then show ?thesis using loop_empty [OF True, of e] empty [OF "1.prems" True] by simp
  next
    case False
    obtain item where pop: "heappop (open_set st) = Inr (item, remove1 item (open_set st))"
      and mem: "item \<in> set (open_set st)" and least: "\<forall>y \<in> set (open_set st). item \<le> y"
      using heappop_nonempty [OF False] by blast
    show ?thesis
    proof (cases "snd item \<in> set (visited st)")
      case True
      let ?st' = "st\<lparr>open_set := remove1 item (open_set st)\<rparr>"
      have "(?st', st) \<in> loop_order e"
        using length_remove1_less [OF mem] by (simp add: loop_order_def)
      from "1.IH" [OF this stale [OF "1.prems" mem least True]]
      show ?thesis using loop_stale [OF False pop True, of e] by simp
    next
      case fresh: False
      show ?thesis
      proof (cases "snd item = goal e")
        case True
        from found [OF "1.prems" mem least fresh True] obtain p where
          p: "reconstruct_path (came_from st) (goal e) = Some p"
            "Q (Inr (found_result p (settle st item), e))" by blast
        show ?thesis using loop_goal [OF False pop fresh True] p by simp
      next
        case ng: False
        let ?ns = "get_neighbors e (fst (snd item)) (snd (snd item))"
        note ex = expand [OF "1.prems" mem least fresh ng]
        show ?thesis
        proof (cases "explore_neighbors e (snd item) ?ns (settle st item)")
          case (Inl err)
          then show ?thesis using loop_expand [OF False pop fresh ng] ex by simp
        next
          case (Inr st2)
          have st2: "st2 = fold (relax e (snd item)) ?ns (settle st item)"
            by (rule explore_neighbors_Inr [OF Inr])
          have "(st2, st) \<in> loop_order e"
          proof (cases "snd item \<in> universe e")
            case True
            then show ?thesis
              using card_universe_less [OF True fresh]
              by (simp add: st2 loop_order_def settle_def)
          next
            case out: False
            then have "?ns = []" using get_neighbors_outside [of "fst (snd item)" "snd (snd item)" e]
              by simp
            then show ?thesis
              using card_universe_same [OF out, of "visited st"] length_remove1_less [OF mem]
              by (simp add: st2 loop_order_def settle_def)
          qed
          moreover have "I st2" using ex Inr by simp
          ultimately show ?thesis
            using "1.IH" [of st2] loop_expand [OF False pop fresh ng] Inr by simp
        qed
      qed
    qed
  qed
qed

subsection \<open>No read leaves a square grid\<close>

lemma dangerous_count_ok:
  assumes "square n g" "\<forall>(x, y) \<in> set ns. inb n x y"
  shows "\<exists>k. dangerous_count g ns = Inr k"
  using assms(2)
proof (induction ns)
  case Nil
  then show ?case by simp
next
  case (Cons p ns)
  obtain x y where p: "p = (x, y)" by (cases p)
  obtain c where "cell g x y = Inr c" using cell_ok [OF assms(1), of x y] Cons.prems p by auto
  moreover obtain k where "dangerous_count g ns = Inr k" using Cons by auto
  ultimately show ?case using p by simp
qed

lemma is_safe_path_ok:
  assumes "square (grid_size e) (grid e)" "inb (grid_size e) x y"
  shows "\<exists>b. is_safe_path e x y = Inr b"
proof -
  obtain c where c: "cell (grid e) x y = Inr c" using cell_ok [OF assms] by blast
  have "\<forall>(nx, ny) \<in> set (get_neighbors e x y). inb (grid_size e) nx ny"
    using get_neighbors_inb by blast
  from dangerous_count_ok [OF assms(1) this] obtain k where
    "dangerous_count (grid e) (get_neighbors e x y) = Inr k" by blast
  then show ?thesis using c by (auto simp: is_safe_path_def)
qed

lemma explore_neighbors_square:
  assumes "square (grid_size e) (grid e)"
  shows "explore_neighbors e cur (get_neighbors e x y) st =
           Inr (fold (relax e cur) (get_neighbors e x y) st)"
proof (rule explore_neighbors_total)
  show "\<forall>nb \<in> set (get_neighbors e x y). \<exists>b. is_safe_path e (fst nb) (snd nb) = Inr b"
  proof
    fix nb assume "nb \<in> set (get_neighbors e x y)"
    then have "inb (grid_size e) (fst nb) (snd nb)"
      using get_neighbors_inb [of "fst nb" "snd nb" e x y] by simp
    then show "\<exists>b. is_safe_path e (fst nb) (snd nb) = Inr b"
      by (rule is_safe_path_ok [OF assms])
  qed
qed

subsection \<open>The returned path\<close>

lemma basic_inv_settle: "basic_inv e st \<Longrightarrow> basic_inv e (settle st item)"
  unfolding basic_inv_def settle_def using set_remove1_subset [of item "open_set st"] by auto

lemma reconstruct_path_basic:
  assumes "basic_inv e st" "g_score st cur \<noteq> None"
  shows "\<exists>p. reconstruct_path (came_from st) cur = Some p \<and> p \<noteq> []
           \<and> hd p = start e \<and> last p = cur \<and> (\<forall>c \<in> set (tl p). safe e c)"
proof -
  have ok: "chain_ok (g_score st) (came_from st)"
    and sf: "\<And>v u. came_from st v = Some u \<Longrightarrow> safe e v"
    and root: "\<And>v. g_score st v \<noteq> None \<Longrightarrow> came_from st v = None \<Longrightarrow> v = start e"
    using assms(1) unfolding basic_inv_def by blast+
  obtain sfx where r: "reconstruct_path (came_from st) cur = Some (rev (cur # sfx))"
    and ch: "chain (came_from st) (cur # sfx)"
    using reconstruct_path_total [OF ok] by blast
  have def: "\<forall>v u. came_from st v = Some u \<longrightarrow> g_score st u \<noteq> None"
    using ok unfolding chain_ok_def by fastforce
  have "g_score st (last (cur # sfx)) \<noteq> None"
    by (rule chain_defined [OF ch _ def]) (use assms(2) in simp)
  then have h: "last (cur # sfx) = start e"
    using root chain_last [OF ch] by blast
  have s: "safe e c" if "c \<in> set (tl (rev (cur # sfx)))" for c
  proof -
    have "c \<in> set (butlast (cur # sfx))" using that unfolding tl_rev by simp
    then have "came_from st c \<noteq> None" by (rule chain_butlast [OF ch])
    then show ?thesis using sf by blast
  qed
  have n: "rev (cur # sfx) \<noteq> []" by simp
  have hd: "hd (rev (cur # sfx)) = start e" unfolding hd_rev using h .
  have la: "last (rev (cur # sfx)) = cur" unfolding last_rev by simp
  show ?thesis using r n hd la s by blast
qed

subsection \<open>The search returns\<close>


lemma a_star_loop_square:
  assumes "square (grid_size e) (grid e)" "basic_inv e st"
  shows "\<exists>out. a_star_loop e st = Some out \<and> (\<exists>r. out = Inr (r, e))"
proof (rule a_star_loop_rule [where I = "basic_inv e"])
  show "basic_inv e st" by (rule assms)
next
  fix st :: search_state and item :: "int \<times> pos"
  assume "basic_inv e st"
  then show "basic_inv e (st\<lparr>open_set := remove1 item (open_set st)\<rparr>)"
    by (rule basic_inv_remove1)
next
  fix st :: search_state and item :: "int \<times> pos"
  assume inv: "basic_inv e st"
  let ?ns = "get_neighbors e (fst (snd item)) (snd (snd item))"
  show "case explore_neighbors e (snd item) ?ns (settle st item) of
          Inl err \<Rightarrow> \<exists>r. Inl err = Inr (r, e) | Inr st2 \<Rightarrow> basic_inv e st2"
    unfolding explore_neighbors_square [OF assms(1)]
    using fold_relax_basic_inv [OF basic_inv_settle [OF inv]] by simp
next
  fix st :: search_state and item :: "int \<times> pos"
  assume inv: "basic_inv e st" and mem: "item \<in> set (open_set st)"
    and g: "snd item = goal e"
  have "g_score st (goal e) \<noteq> None"
    using inv mem g unfolding basic_inv_def by fastforce
  from reconstruct_path_basic [OF inv this]
  show "\<exists>p. reconstruct_path (came_from st) (goal e) = Some p
          \<and> (\<exists>r. Inr (found_result p (settle st item), e) = Inr (r, e))"
    by blast
next
  fix st :: search_state
  show "\<exists>r. Inr (no_path_result st, e) = Inr (r, e)" by simp
qed

subsection \<open>The object after the call\<close>

text \<open>
  The state-passing methods return the value of the methods above, and the object they
  were given. For the loop, which need not return, this is shown in both directions.
\<close>

lemma get_neighbors_self_eq: "get_neighbors_self x y e = (get_neighbors e x y, e)"
  by (simp add: get_neighbors_self_def get_neighbors_def)

lemma heuristic_self_eq: "heuristic_self p e = (heuristic e p, e)"
  by (simp add: heuristic_self_def heuristic_def)

lemma is_safe_path_self_eq: "is_safe_path_self x y e = (is_safe_path e x y, e)"
  by (simp add: is_safe_path_self_def is_safe_path_def get_neighbors_self_eq split: sum.splits)

lemma visit_neighbor_self_eq:
  "visit_neighbor_self cur nb st e = (visit_neighbor e cur nb st, e)"
  by (simp add: visit_neighbor_self_def visit_neighbor_def is_safe_path_self_eq
      heuristic_self_eq Let_def split: sum.splits option.splits)

lemma explore_neighbors_self_eq:
  "explore_neighbors_self cur ns st e = (explore_neighbors e cur ns st, e)"
  by (induction ns arbitrary: st) (simp_all add: visit_neighbor_self_eq split: sum.splits)

lemma reconstruct_path_self_eq:
  "reconstruct_path_self cf cur e = map_option (\<lambda>p. (p, e)) (reconstruct_path cf cur)"
  by (simp add: reconstruct_path_self_def reconstruct_path_def)


lemma a_star_loop_self_frame:
  assumes "a_star_loop_self st e = Some res"
  shows "snd res = e"
proof (rule a_star_loop_self.raw_induct [where P = "\<lambda>st e res. snd res = e", OF _ assms],
    goal_cases)
  case (1 f st self res)
  note IH = "1"(1) and eq = "1"(2)
  show ?case
  proof (cases "open_set st = []")
    case True
    then show ?thesis using eq by auto
  next
    case False
    show ?thesis
    proof (cases "heappop (open_set st)")
      case (Inl err)
      then show ?thesis using eq False by auto
    next
      case (Inr pr)
      obtain item rest where pr: "pr = (item, rest)" by (cases pr)
      show ?thesis
      proof (cases "snd item \<in> set (visited st)")
        case True
        then have "f (st\<lparr>open_set := rest\<rparr>) self = Some res"
          using eq False Inr pr by simp
        then show ?thesis by (rule IH)
      next
        case fresh: False
        show ?thesis
        proof (cases "snd item = goal self")
          case True
          then show ?thesis
            using eq False Inr pr fresh
            by (auto simp: reconstruct_path_self_eq Let_def split: option.splits)
        next
          case ng: False
          let ?st1 = "st\<lparr>open_set := rest, visited := visited st @ [snd item],
                         explored := explored st + 1\<rparr>"
          let ?ns = "get_neighbors self (fst (snd item)) (snd (snd item))"
          show ?thesis
          proof (cases "explore_neighbors self (snd item) ?ns ?st1")
            case (Inl err)
            then show ?thesis
              using eq False Inr pr fresh ng
              by (auto simp: get_neighbors_self_eq explore_neighbors_self_eq Let_def)
          next
            case st2: (Inr st2)
            then have "f st2 self = Some res"
              using eq False Inr pr fresh ng
              by (simp add: get_neighbors_self_eq explore_neighbors_self_eq Let_def)
            then show ?thesis by (rule IH)
          qed
        qed
      qed
    qed
  qed
qed

lemma a_star_loop_self_refines:
  assumes "a_star_loop e st = Some out"
  shows "a_star_loop_self st e = Some (map_sum id fst out, e)"
proof (rule a_star_loop.raw_induct
    [where P = "\<lambda>e st out. a_star_loop_self st e = Some (map_sum id fst out, e)", OF _ assms],
    goal_cases)
  case (1 f e st out)
  note IH = "1"(1) and eq = "1"(2)
  show ?case
  proof (cases "open_set st = []")
    case True
    then show ?thesis using eq by (subst a_star_loop_self.simps) auto
  next
    case False
    show ?thesis
    proof (cases "heappop (open_set st)")
      case (Inl err)
      then show ?thesis using eq False by (subst a_star_loop_self.simps) auto
    next
      case (Inr pr)
      obtain item rest where pr: "pr = (item, rest)" by (cases pr)
      show ?thesis
      proof (cases "snd item \<in> set (visited st)")
        case True
        then have "f e (st\<lparr>open_set := rest\<rparr>) = Some out"
          using eq False Inr pr by simp
        from IH [OF this] show ?thesis
          using False Inr pr True by (subst a_star_loop_self.simps) simp
      next
        case fresh: False
        show ?thesis
        proof (cases "snd item = goal e")
          case True
          then show ?thesis
            using eq False Inr pr fresh
            by (subst a_star_loop_self.simps)
              (auto simp: reconstruct_path_self_eq Let_def split: option.splits)
        next
          case ng: False
          let ?st1 = "st\<lparr>open_set := rest, visited := visited st @ [snd item],
                         explored := explored st + 1\<rparr>"
          let ?ns = "get_neighbors e (fst (snd item)) (snd (snd item))"
          show ?thesis
          proof (cases "explore_neighbors e (snd item) ?ns ?st1")
            case (Inl err)
            then show ?thesis
              using eq False Inr pr fresh ng
              by (subst a_star_loop_self.simps)
                (auto simp: get_neighbors_self_eq explore_neighbors_self_eq Let_def)
          next
            case st2: (Inr st2)
            then have "f e st2 = Some out"
              using eq False Inr pr fresh ng by (simp add: Let_def)
            from IH [OF this] show ?thesis
              using False Inr pr fresh ng st2
              by (subst a_star_loop_self.simps)
                (simp add: get_neighbors_self_eq explore_neighbors_self_eq Let_def)
          qed
        qed
      qed
    qed
  qed
qed

lemma a_star_loop_self_sound:
  assumes "a_star_loop_self st e = Some res"
  shows "a_star_loop e st = Some (case fst res of Inl err \<Rightarrow> Inl err | Inr r \<Rightarrow> Inr (r, e))"
proof (rule a_star_loop_self.raw_induct
    [where P = "\<lambda>st e res. a_star_loop e st =
         Some (case fst res of Inl err \<Rightarrow> Inl err | Inr r \<Rightarrow> Inr (r, e))", OF _ assms],
    goal_cases)
  case (1 f st self res)
  note IH = "1"(1) and eq = "1"(2)
  show ?case
  proof (cases "open_set st = []")
    case True
    then show ?thesis using eq by (subst a_star_loop.simps) auto
  next
    case False
    show ?thesis
    proof (cases "heappop (open_set st)")
      case (Inl err)
      then show ?thesis using eq False by (subst a_star_loop.simps) auto
    next
      case (Inr pr)
      obtain item rest where pr: "pr = (item, rest)" by (cases pr)
      show ?thesis
      proof (cases "snd item \<in> set (visited st)")
        case True
        then have "f (st\<lparr>open_set := rest\<rparr>) self = Some res"
          using eq False Inr pr by simp
        from IH [OF this] show ?thesis
          using False Inr pr True by (subst a_star_loop.simps) simp
      next
        case fresh: False
        show ?thesis
        proof (cases "snd item = goal self")
          case True
          then show ?thesis
            using eq False Inr pr fresh
            by (subst a_star_loop.simps)
              (auto simp: reconstruct_path_self_eq Let_def split: option.splits)
        next
          case ng: False
          let ?st1 = "st\<lparr>open_set := rest, visited := visited st @ [snd item],
                         explored := explored st + 1\<rparr>"
          let ?ns = "get_neighbors self (fst (snd item)) (snd (snd item))"
          show ?thesis
          proof (cases "explore_neighbors self (snd item) ?ns ?st1")
            case (Inl err)
            then show ?thesis
              using eq False Inr pr fresh ng
              by (subst a_star_loop.simps)
                (auto simp: get_neighbors_self_eq explore_neighbors_self_eq Let_def)
          next
            case st2: (Inr st2)
            then have "f st2 self = Some res"
              using eq False Inr pr fresh ng
              by (simp add: get_neighbors_self_eq explore_neighbors_self_eq Let_def)
            from IH [OF this] show ?thesis
              using False Inr pr fresh ng st2
              by (subst a_star_loop.simps) (simp add: Let_def)
          qed
        qed
      qed
    qed
  qed
qed

lemma a_star_search_self_eq:
  "a_star_search_self e = map_option (\<lambda>out. (map_sum id fst out, e)) (a_star_search e)"
proof (cases "a_star_search e")
  case (Some out)
  then have "a_star_loop e (initial_state e) = Some out" by (simp add: a_star_search_def)
  from a_star_loop_self_refines [OF this] show ?thesis
    using Some by (simp add: a_star_search_self_def heuristic_self_eq initial_state_def)
next
  case None
  show ?thesis
  proof (cases "a_star_search_self e")
    case n: None
    then show ?thesis using None by simp
  next
    case (Some res)
    then have "a_star_loop_self (initial_state e) e = Some res"
      by (simp add: a_star_search_self_def heuristic_self_eq initial_state_def)
    from a_star_loop_self_sound [OF this] show ?thesis
      using None by (simp add: a_star_search_def)
  qed
qed

lemma a_star_search_self_refines:
  "a_star_search e = Some out \<Longrightarrow> a_star_search_self e = Some (map_sum id fst out, e)"
  unfolding a_star_search_def a_star_search_self_def heuristic_self_eq initial_state_def
  by (simp add: a_star_loop_self_refines)

lemma a_star_search_self_frame:
  "a_star_search_self e = Some res \<Longrightarrow> snd res = e"
  unfolding a_star_search_self_def heuristic_self_eq
  by (simp add: a_star_loop_self_frame)

text \<open>
  C8: \<open>a_star_search\<close> never mutates the grid. With the object threaded through every
  method that the search calls, whenever a call on any engine returns (a result with a
  path, a result without one, or an exception) the object after the call is the object
  before it, and so is its grid; and on every square grid the call does return a result.
\<close>

theorem C8_grid_unchanged:
  "(a_star_search_self e = Some (out, e') \<longrightarrow> e' = e \<and> grid e' = grid e)
   \<and> (square (grid_size e) (grid e) \<longrightarrow> (\<exists>r. a_star_search_self e = Some (Inr r, e)))"
proof (intro conjI impI)
  assume "a_star_search_self e = Some (out, e')"
  from a_star_search_self_frame [OF this] show "e' = e" by simp
  then show "grid e' = grid e" by simp
next
  assume "square (grid_size e) (grid e)"
  then obtain r where "a_star_search e = Some (Inr (r, e))"
    using a_star_loop_square [OF _ basic_inv_initial] unfolding a_star_search_def by blast
  from a_star_search_self_refines [OF this] show "\<exists>r. a_star_search_self e = Some (Inr r, e)"
    by simp
qed

theorem C8_grid_unchanged_witness:
  "a_star_search_self (load_grid [[0, 0], [0, 0]]) =
     Some (Inr \<lparr>path = [(0, 0), (0, 1), (1, 1)],
                visited_cells = [(0, 0), (0, 1), (1, 0), (1, 1)],
                stats_explored = 4, stats_pruned = 0, stats_path_length = 3\<rparr>,
           load_grid [[0, 0], [0, 0]])
   \<and> grid (load_grid [[0, 0], [0, 0]]) = [[0, 0], [0, 0]]
   \<and> square (grid_size (load_grid [[0, 0], [0, 0]])) (grid (load_grid [[0, 0], [0, 0]]))
   \<and> a_star_search_self (load_grid [[0, 1], [1, 0]]) =
     Some (Inr \<lparr>path = [], visited_cells = [(0, 0)],
                stats_explored = 1, stats_pruned = 2, stats_path_length = 0\<rparr>,
           load_grid [[0, 1], [1, 0]])
   \<and> grid (load_grid [[0, 1], [1, 0]]) = [[0, 1], [1, 0]]"
proof -
  have a: "a_star_search_self (load_grid [[0, 0], [0, 0]]) =
     Some (Inr \<lparr>path = [(0, 0), (0, 1), (1, 1)],
                visited_cells = [(0, 0), (0, 1), (1, 0), (1, 1)],
                stats_explored = 4, stats_pruned = 0, stats_path_length = 3\<rparr>,
           load_grid [[0, 0], [0, 0]])"
    by code_simp
  have b: "a_star_search_self (load_grid [[0, 1], [1, 0]]) =
     Some (Inr \<lparr>path = [], visited_cells = [(0, 0)],
                stats_explored = 1, stats_pruned = 2, stats_path_length = 0\<rparr>,
           load_grid [[0, 1], [1, 0]])"
    by code_simp
  have sq: "square (grid_size (load_grid [[0, 0], [0, 0]])) (grid (load_grid [[0, 0], [0, 0]]))"
    by (simp add: square_def load_grid_def MarioTrapAvoidance_def)
  have g1: "grid (load_grid [[0, 0], [0, 0]]) = [[0, 0], [0, 0]]"
    and g2: "grid (load_grid [[0, 1], [1, 0]]) = [[0, 1], [1, 0]]"
    by (simp_all add: load_grid_def)
  note T1 = C8_grid_unchanged [where e = "load_grid [[0, 0], [0, 0]]"
      and e' = "load_grid [[0, 0], [0, 0]]"
      and out = "Inr \<lparr>path = [(0, 0), (0, 1), (1, 1)],
                visited_cells = [(0, 0), (0, 1), (1, 0), (1, 1)],
                stats_explored = 4, stats_pruned = 0, stats_path_length = 3\<rparr>"]
  note T2 = C8_grid_unchanged [where e = "load_grid [[0, 1], [1, 0]]"
      and e' = "load_grid [[0, 1], [1, 0]]"
      and out = "Inr \<lparr>path = [], visited_cells = [(0, 0)],
                stats_explored = 1, stats_pruned = 2, stats_path_length = 0\<rparr>"]
  have "grid (load_grid [[0, 0], [0, 0]]) = grid (load_grid [[0, 0], [0, 0]])"
    using T1 a by blast
  moreover have "grid (load_grid [[0, 1], [1, 0]]) = grid (load_grid [[0, 1], [1, 0]])"
    using T2 b by blast
  moreover have "\<exists>r. a_star_search_self (load_grid [[0, 0], [0, 0]]) =
      Some (Inr r, load_grid [[0, 0], [0, 0]])"
    using T1 sq by blast
  ultimately show ?thesis using a b sq g1 g2 by simp
qed

text \<open>
  C9: on every square grid of every size \<open>a_star_search\<close> terminates and returns a
  result (no read leaves the grid, the loop ends and the reconstruction of the path
  ends).
\<close>

theorem C9_search_terminates:
  assumes "square (grid_size e) (grid e)"
  shows "\<exists>r. a_star_search e = Some (Inr (r, e))"
  using a_star_loop_square [OF assms basic_inv_initial] unfolding a_star_search_def by blast

theorem C9_search_terminates_witness:
  "square (grid_size (load_grid [[0, 2, 0], [2, 1, 2], [0, 2, 0]]))
     (grid (load_grid [[0, 2, 0], [2, 1, 2], [0, 2, 0]]))
   \<and> (\<exists>r. a_star_search (load_grid [[0, 2, 0], [2, 1, 2], [0, 2, 0]]) =
            Some (Inr (r, load_grid [[0, 2, 0], [2, 1, 2], [0, 2, 0]])))"
proof -
  have sq: "square (grid_size (load_grid [[0, 2, 0], [2, 1, 2], [0, 2, 0]]))
     (grid (load_grid [[0, 2, 0], [2, 1, 2], [0, 2, 0]]))"
    by (simp add: square_def load_grid_def MarioTrapAvoidance_def)
  show ?thesis using C9_search_terminates [OF sq] sq by blast
qed

subsection \<open>The start cell\<close>













section \<open>Optimality of the returned path\<close>

lemma reach_nonneg: "reach e c v \<Longrightarrow> 0 \<le> c"
proof (induction rule: reach.induct)
  case reach_start
  show ?case by simp
next
  case (reach_step c u v)
  then show ?case using move_cost_pos [of e v] by linarith
qed

lemma valid_path_snoc:
  "ps \<noteq> [] \<Longrightarrow> valid_path e (ps @ [x]) \<longleftrightarrow> valid_path e ps \<and> edge e (last ps) x"
  by (induction e ps rule: valid_path.induct) auto

lemma path_cost_snoc:
  "ps \<noteq> [] \<Longrightarrow> path_cost e (ps @ [x]) = path_cost e ps + move_cost e x"
  by (cases ps) (simp_all add: path_cost_def)

lemma path_cost_single [simp]: "path_cost e [x] = 0"
  by (simp add: path_cost_def)

lemma valid_path_reach:
  assumes "valid_path e q" "hd q = start e"
  shows "reach e (path_cost e q) (last q)"
  using assms
proof (induction q rule: rev_induct)
  case Nil
  then show ?case by simp
next
  case (snoc x ps)
  show ?case
  proof (cases "ps = []")
    case True
    then show ?thesis using snoc.prems reach_start [of e] by simp
  next
    case False
    then have v: "valid_path e ps" "edge e (last ps) x"
      using snoc.prems(1) valid_path_snoc [OF False] by simp_all
    have "hd ps = start e" using snoc.prems(2) False by simp
    from snoc.IH [OF v(1) this] have "reach e (path_cost e ps) (last ps)" .
    from reach_step [OF this v(2)] show ?thesis
      using False by (simp add: path_cost_snoc)
  qed
qed

lemma heuristic_consistent:
  assumes "edge e u v"
  shows "heuristic e u \<le> move_cost e v + heuristic e v"
proof -
  have "(fst v, snd v) \<in> set (get_neighbors e (fst u) (snd u))"
    using assms by (simp add: edge_def)
  then have adj: "\<bar>fst v - fst u\<bar> + \<bar>snd v - snd u\<bar> = 1"
    unfolding get_neighbors_iff by simp
  have "heuristic e u \<le> 1 + heuristic e v"
    unfolding heuristic_def using adj by linarith
  then show ?thesis using move_cost_pos [of e v] by linarith
qed

lemma heuristic_nonneg: "0 \<le> heuristic e p"
  by (simp add: heuristic_def)

lemma opt_invI:
  assumes "\<And>v gv. g_score st v = Some gv \<Longrightarrow> reach e gv v"
    and "\<And>u v. u \<in> S \<Longrightarrow> edge e u v \<Longrightarrow>
          \<exists>gu gv. g_score st u = Some gu \<and> g_score st v = Some gv \<and> gv \<le> gu + move_cost e v"
    and "\<And>u c. u \<in> set (visited st) \<Longrightarrow> reach e c u \<Longrightarrow>
          \<exists>gu. g_score st u = Some gu \<and> gu \<le> c"
    and "\<And>v gv. g_score st v = Some gv \<Longrightarrow> v \<notin> set (visited st) \<Longrightarrow>
          \<exists>f. (f, v) \<in> set (open_set st) \<and> f \<le> gv + heuristic e v"
    and "\<And>f v. (f, v) \<in> set (open_set st) \<Longrightarrow>
          v = start e \<or> (\<exists>gv. g_score st v = Some gv \<and> gv + heuristic e v \<le> f)"
    and "\<And>v u. came_from st v = Some u \<Longrightarrow>
          edge e u v \<and> (\<exists>gu gv. g_score st u = Some gu \<and> g_score st v = Some gv
             \<and> gu + move_cost e v \<le> gv)"
    and "goal e \<notin> set (visited st)"
  shows "opt_inv e S st"
  unfolding opt_inv_def using assms by blast

lemma opt_inv_reach: "opt_inv e S st \<Longrightarrow> g_score st v = Some gv \<Longrightarrow> reach e gv v"
  unfolding opt_inv_def by blast

lemma opt_inv_closed:
  "opt_inv e S st \<Longrightarrow> u \<in> S \<Longrightarrow> edge e u v \<Longrightarrow>
     \<exists>gu gv. g_score st u = Some gu \<and> g_score st v = Some gv \<and> gv \<le> gu + move_cost e v"
  unfolding opt_inv_def by blast

lemma opt_inv_settled:
  "opt_inv e S st \<Longrightarrow> u \<in> set (visited st) \<Longrightarrow> reach e c u \<Longrightarrow>
     \<exists>gu. g_score st u = Some gu \<and> gu \<le> c"
  unfolding opt_inv_def by blast

lemma opt_inv_frontier:
  "opt_inv e S st \<Longrightarrow> g_score st v = Some gv \<Longrightarrow> v \<notin> set (visited st) \<Longrightarrow>
     \<exists>f. (f, v) \<in> set (open_set st) \<and> f \<le> gv + heuristic e v"
  unfolding opt_inv_def by blast

lemma opt_inv_entry:
  "opt_inv e S st \<Longrightarrow> (f, v) \<in> set (open_set st) \<Longrightarrow>
     v = start e \<or> (\<exists>gv. g_score st v = Some gv \<and> gv + heuristic e v \<le> f)"
  unfolding opt_inv_def by blast

lemma opt_inv_came_from:
  "opt_inv e S st \<Longrightarrow> came_from st v = Some u \<Longrightarrow>
     edge e u v \<and> (\<exists>gu gv. g_score st u = Some gu \<and> g_score st v = Some gv
        \<and> gu + move_cost e v \<le> gv)"
  unfolding opt_inv_def by blast

lemma opt_inv_goal: "opt_inv e S st \<Longrightarrow> goal e \<notin> set (visited st)"
  unfolding opt_inv_def by blast

lemma relax_g_cur: "g_score (relax e cur nb st) cur = g_score st cur"
proof (cases rule: relax_cases [of e nb cur st])
  case (better gc)
  have "cur \<noteq> nb"
    using better(2,3) move_cost_pos [of e nb] by (auto simp: score_less_Some_iff)
  then show ?thesis unfolding better(4) by simp
qed simp_all

lemma relax_mono:
  assumes "g_score st v = Some a"
  shows "\<exists>b. g_score (relax e cur nb st) v = Some b \<and> b \<le> a"
proof (cases rule: relax_cases [of e nb cur st])
  case (better gc)
  show ?thesis
    unfolding better(4) using better(3) assms by (auto simp: score_less_Some_iff)
qed (simp_all add: assms)

lemma relax_bound:
  assumes "safe e nb" "g_score st cur = Some gc"
  shows "\<exists>gn. g_score (relax e cur nb st) nb = Some gn \<and> gn \<le> gc + move_cost e nb"
proof (cases rule: relax_cases [of e nb cur st])
  case pruned
  then show ?thesis using assms by simp
next
  case same
  then show ?thesis using assms by auto
next
  case (better gc')
  then show ?thesis using assms by simp
qed

lemma relax_opt_inv:
  assumes inv: "opt_inv e S st"
    and sub: "S \<subseteq> set (visited st)"
    and cur: "cur \<in> set (visited st)"
    and nb: "nb \<in> set (get_neighbors e (fst cur) (snd cur))"
  shows "opt_inv e S (relax e cur nb st)"
proof (cases rule: relax_cases [of e nb cur st])
  case pruned
  show ?thesis unfolding pruned(2) using inv by (simp add: opt_inv_def)
next
  case same
  then show ?thesis using inv by simp
next
  case (better gc)
  let ?t = "gc + move_cost e nb"
  let ?g = "(g_score st)(nb \<mapsto> ?t)"
  let ?st = "st\<lparr>came_from := (came_from st)(nb \<mapsto> cur),
            g_score := ?g,
            f_score := (f_score st)(nb \<mapsto> ?t + heuristic e nb),
            open_set := open_set st @ [(?t + heuristic e nb, nb)]\<rparr>"
  have lt: "g_score st nb = None \<or> (\<exists>b. g_score st nb = Some b \<and> ?t < b)"
    using better(3) by (simp add: score_less_Some_iff)
  have step: "edge e cur nb" using nb better(1) by (simp add: edge_def)
  have rt: "reach e ?t nb"
    by (rule reach_step [OF opt_inv_reach [OF inv better(2)] step])
  have nv: "nb \<notin> set (visited st)"
  proof
    assume "nb \<in> set (visited st)"
    from opt_inv_settled [OF inv this rt] lt show False by auto
  qed
  have nS: "nb \<notin> S" using nv sub by blast
  have ne: "cur \<noteq> nb" using nv cur by blast
  have "opt_inv e S ?st"
  proof (rule opt_invI)
    fix v gv assume "g_score ?st v = Some gv"
    then show "reach e gv v"
      using rt opt_inv_reach [OF inv, of v gv] by (cases "v = nb") simp_all
  next
    fix u v assume u: "u \<in> S" and uv: "edge e u v"
    obtain gu gv where g: "g_score st u = Some gu" "g_score st v = Some gv"
        "gv \<le> gu + move_cost e v"
      using opt_inv_closed [OF inv u uv] by blast
    have "u \<noteq> nb" using u nS by blast
    then show "\<exists>gu gv. g_score ?st u = Some gu \<and> g_score ?st v = Some gv
                 \<and> gv \<le> gu + move_cost e v"
      using g lt by (cases "v = nb") auto
  next
    fix u c assume u: "u \<in> set (visited ?st)" and r: "reach e c u"
    then have u': "u \<in> set (visited st)" by simp
    then have "u \<noteq> nb" using nv by blast
    then show "\<exists>gu. g_score ?st u = Some gu \<and> gu \<le> c"
      using opt_inv_settled [OF inv u' r] by simp
  next
    fix v gv assume g: "g_score ?st v = Some gv" and v: "v \<notin> set (visited ?st)"
    show "\<exists>f. (f, v) \<in> set (open_set ?st) \<and> f \<le> gv + heuristic e v"
    proof (cases "v = nb")
      case True
      then show ?thesis using g by auto
    next
      case False
      then have "g_score st v = Some gv" "v \<notin> set (visited st)" using g v by simp_all
      from opt_inv_frontier [OF inv this] show ?thesis by auto
    qed
  next
    fix f v assume m: "(f, v) \<in> set (open_set ?st)"
    show "v = start e \<or> (\<exists>gv. g_score ?st v = Some gv \<and> gv + heuristic e v \<le> f)"
    proof (cases "(f, v) \<in> set (open_set st)")
      case True
      from opt_inv_entry [OF inv True] show ?thesis
        using lt by (cases "v = nb") auto
    next
      case False
      then have "f = ?t + heuristic e nb" "v = nb" using m by simp_all
      then show ?thesis by simp
    qed
  next
    fix v u assume c: "came_from ?st v = Some u"
    show "edge e u v \<and> (\<exists>gu gv. g_score ?st u = Some gu \<and> g_score ?st v = Some gv
             \<and> gu + move_cost e v \<le> gv)"
    proof (cases "v = nb")
      case True
      then have "u = cur" using c by simp
      then show ?thesis using True step ne better(2) by simp
    next
      case False
      then have "came_from st v = Some u" using c by simp
      from opt_inv_came_from [OF inv this] show ?thesis
        using False lt by (cases "u = nb") auto
    qed
  next
    show "goal e \<notin> set (visited ?st)" using opt_inv_goal [OF inv] by simp
  qed
  then show ?thesis unfolding better(4) .
qed

lemma fold_relax_g_cur: "g_score (fold (relax e cur) ns st) cur = g_score st cur"
  by (induction ns arbitrary: st) (simp_all add: relax_g_cur)

lemma fold_relax_mono:
  "g_score st v = Some a \<Longrightarrow> \<exists>b. g_score (fold (relax e cur) ns st) v = Some b \<and> b \<le> a"
proof (induction ns arbitrary: st a)
  case Nil
  then show ?case by simp
next
  case (Cons nb ns st a)
  obtain b where b: "g_score (relax e cur nb st) v = Some b" "b \<le> a"
    using relax_mono [OF Cons.prems] by blast
  from Cons.IH [OF b(1)] b(2) show ?case by fastforce
qed

lemma fold_relax_opt_inv:
  assumes "opt_inv e S st" "S \<subseteq> set (visited st)" "cur \<in> set (visited st)"
    "set ns \<subseteq> set (get_neighbors e (fst cur) (snd cur))"
  shows "opt_inv e S (fold (relax e cur) ns st)"
  using assms
proof (induction ns arbitrary: st)
  case Nil
  then show ?case by simp
next
  case (Cons nb ns st)
  have "opt_inv e S (relax e cur nb st)"
    by (rule relax_opt_inv [OF Cons.prems(1-3)]) (use Cons.prems(4) in simp)
  then show ?case using Cons.IH [of "relax e cur nb st"] Cons.prems by simp
qed

lemma fold_relax_bound:
  assumes "g_score st cur = Some gc" "nb \<in> set ns" "safe e nb"
  shows "\<exists>gn. g_score (fold (relax e cur) ns st) nb = Some gn \<and> gn \<le> gc + move_cost e nb"
  using assms(1,2)
proof (induction ns arbitrary: st)
  case Nil
  then show ?case by simp
next
  case (Cons x ns st)
  have gc': "g_score (relax e cur x st) cur = Some gc"
    using Cons.prems(1) by (simp add: relax_g_cur)
  show ?case
  proof (cases "nb = x")
    case True
    obtain gn where gn: "g_score (relax e cur nb st) nb = Some gn" "gn \<le> gc + move_cost e nb"
      using relax_bound [OF assms(3) Cons.prems(1)] by blast
    from fold_relax_mono [OF gn(1), of e cur ns] gn(2) show ?thesis
      using True by fastforce
  next
    case False
    then have "nb \<in> set ns" using Cons.prems(2) by simp
    from Cons.IH [OF gc' this] show ?thesis by simp
  qed
qed

lemma frontier_or_settled:
  assumes inv: "opt_inv e (set (visited st)) st"
    and g0: "g_score st (start e) = Some 0"
    and r: "reach e c w"
  shows "(w \<in> set (visited st) \<and> (\<exists>gw. g_score st w = Some gw \<and> gw \<le> c))
         \<or> (\<exists>f x. (f, x) \<in> set (open_set st) \<and> f \<le> c + heuristic e w)"
  using r
proof (induction rule: reach.induct)
  case reach_start
  show ?case
  proof (cases "start e \<in> set (visited st)")
    case True
    then show ?thesis using g0 by simp
  next
    case False
    from opt_inv_frontier [OF inv g0 False] obtain f where
      "(f, start e) \<in> set (open_set st)" "f \<le> 0 + heuristic e (start e)" by blast
    then show ?thesis by blast
  qed
next
  case (reach_step c u v)
  have cons: "heuristic e u \<le> move_cost e v + heuristic e v"
    by (rule heuristic_consistent [OF reach_step.hyps(2)])
  from reach_step.IH show ?case
  proof
    assume a: "u \<in> set (visited st) \<and> (\<exists>gu. g_score st u = Some gu \<and> gu \<le> c)"
    then obtain gu gv where g: "g_score st u = Some gu" "gu \<le> c"
        "g_score st v = Some gv" "gv \<le> gu + move_cost e v"
      using opt_inv_closed [OF inv _ reach_step.hyps(2)] by fastforce
    show ?thesis
    proof (cases "v \<in> set (visited st)")
      case True
      then show ?thesis using g by auto
    next
      case False
      obtain f where "(f, v) \<in> set (open_set st)" "f \<le> gv + heuristic e v"
        using opt_inv_frontier [OF inv g(3) False] by blast
      then show ?thesis using g by (intro disjI2 exI [of _ f] exI [of _ v]) auto
    qed
  next
    assume "\<exists>f x. (f, x) \<in> set (open_set st) \<and> f \<le> c + heuristic e u"
    then obtain f x where "(f, x) \<in> set (open_set st)" "f \<le> c + heuristic e u" by blast
    then show ?thesis using cons by (intro disjI2 exI [of _ f] exI [of _ x]) auto
  qed
qed

lemma popped_is_optimal:
  assumes inv: "opt_inv e (set (visited st)) st" and b: "basic_inv e st"
    and mem: "item \<in> set (open_set st)"
    and least: "\<forall>y \<in> set (open_set st). item \<le> y"
    and fresh: "snd item \<notin> set (visited st)"
    and r: "reach e c (snd item)"
  shows "\<exists>gu. g_score st (snd item) = Some gu \<and> gu \<le> c"
proof -
  have g0: "g_score st (start e) = Some 0" using b unfolding basic_inv_def by blast
  obtain gu where gu: "g_score st (snd item) = Some gu"
    using b mem unfolding basic_inv_def by fastforce
  show ?thesis
  proof (cases "snd item = start e")
    case True
    then show ?thesis using g0 reach_nonneg [OF r] by simp
  next
    case False
    have "(fst item, snd item) \<in> set (open_set st)" using mem by simp
    from opt_inv_entry [OF inv this] False gu
    have lb: "gu + heuristic e (snd item) \<le> fst item" by simp
    from frontier_or_settled [OF inv g0 r] fresh obtain f x where
      fx: "(f, x) \<in> set (open_set st)" "f \<le> c + heuristic e (snd item)" by blast
    have "item \<le> (f, x)" using least fx(1) by blast
    then have "fst item \<le> f" using prio_le [of "fst item" "snd item" f x] by simp
    then show ?thesis using gu lb fx(2) by simp
  qed
qed

lemma set_remove1_other: "y \<in> set xs \<Longrightarrow> y \<noteq> x \<Longrightarrow> y \<in> set (remove1 x xs)"
  by (induction xs) auto

lemma opt_inv_fields:
  assumes inv: "opt_inv e S st"
    and g: "g_score st' = g_score st" and cf: "came_from st' = came_from st"
    and fr: "\<And>v gv. g_score st v = Some gv \<Longrightarrow> v \<notin> set (visited st') \<Longrightarrow>
               \<exists>f. (f, v) \<in> set (open_set st') \<and> f \<le> gv + heuristic e v"
    and op: "set (open_set st') \<subseteq> set (open_set st)"
    and se: "\<And>u c. u \<in> set (visited st') \<Longrightarrow> reach e c u \<Longrightarrow>
               \<exists>gu. g_score st u = Some gu \<and> gu \<le> c"
    and gl: "goal e \<notin> set (visited st')"
  shows "opt_inv e S st'"
proof (rule opt_invI)
  fix v gv assume "g_score st' v = Some gv"
  then show "reach e gv v" unfolding g by (rule opt_inv_reach [OF inv])
next
  fix u v assume "u \<in> S" "edge e u v"
  then show "\<exists>gu gv. g_score st' u = Some gu \<and> g_score st' v = Some gv
               \<and> gv \<le> gu + move_cost e v"
    unfolding g by (rule opt_inv_closed [OF inv])
next
  fix u c assume "u \<in> set (visited st')" "reach e c u"
  then show "\<exists>gu. g_score st' u = Some gu \<and> gu \<le> c" unfolding g by (rule se)
next
  fix v gv assume "g_score st' v = Some gv" "v \<notin> set (visited st')"
  then show "\<exists>f. (f, v) \<in> set (open_set st') \<and> f \<le> gv + heuristic e v"
    unfolding g by (rule fr)
next
  fix f v assume "(f, v) \<in> set (open_set st')"
  then have "(f, v) \<in> set (open_set st)" using op by blast
  then show "v = start e \<or> (\<exists>gv. g_score st' v = Some gv \<and> gv + heuristic e v \<le> f)"
    unfolding g by (rule opt_inv_entry [OF inv])
next
  fix v u assume "came_from st' v = Some u"
  then show "edge e u v \<and> (\<exists>gu gv. g_score st' u = Some gu \<and> g_score st' v = Some gv
               \<and> gu + move_cost e v \<le> gv)"
    unfolding g cf by (rule opt_inv_came_from [OF inv])
next
  show "goal e \<notin> set (visited st')" by (rule gl)
qed

lemma opt_inv_stale:
  assumes inv: "opt_inv e (set (visited st)) st" and old: "snd item \<in> set (visited st)"
  shows "opt_inv e (set (visited st)) (st\<lparr>open_set := remove1 item (open_set st)\<rparr>)"
proof (rule opt_inv_fields [OF inv])
  fix v gv
  assume g: "g_score st v = Some gv"
    and v: "v \<notin> set (visited (st\<lparr>open_set := remove1 item (open_set st)\<rparr>))"
  then have v': "v \<notin> set (visited st)" by simp
  obtain f where f: "(f, v) \<in> set (open_set st)" "f \<le> gv + heuristic e v"
    using opt_inv_frontier [OF inv g v'] by blast
  have "(f, v) \<noteq> item" using v' old by auto
  then have "(f, v) \<in> set (remove1 item (open_set st))"
    by (rule set_remove1_other [OF f(1)])
  then show "\<exists>f. (f, v) \<in> set (open_set (st\<lparr>open_set := remove1 item (open_set st)\<rparr>))
               \<and> f \<le> gv + heuristic e v"
    using f(2) by auto
next
  show "set (open_set (st\<lparr>open_set := remove1 item (open_set st)\<rparr>)) \<subseteq> set (open_set st)"
    using set_remove1_subset [of item "open_set st"] by simp
next
  fix u c assume "u \<in> set (visited (st\<lparr>open_set := remove1 item (open_set st)\<rparr>))"
    "reach e c u"
  then show "\<exists>gu. g_score st u = Some gu \<and> gu \<le> c"
    using opt_inv_settled [OF inv] by simp
next
  show "goal e \<notin> set (visited (st\<lparr>open_set := remove1 item (open_set st)\<rparr>))"
    using opt_inv_goal [OF inv] by simp
qed simp_all

lemma opt_inv_settle:
  assumes inv: "opt_inv e (set (visited st)) st" and b: "basic_inv e st"
    and mem: "item \<in> set (open_set st)"
    and least: "\<forall>y \<in> set (open_set st). item \<le> y"
    and fresh: "snd item \<notin> set (visited st)"
    and ng: "snd item \<noteq> goal e"
  shows "opt_inv e (set (visited st)) (settle st item)"
proof (rule opt_inv_fields [OF inv])
  fix u c assume u: "u \<in> set (visited (settle st item))" and r: "reach e c u"
  show "\<exists>gu. g_score st u = Some gu \<and> gu \<le> c"
  proof (cases "u = snd item")
    case True
    then show ?thesis
      using popped_is_optimal [OF inv b mem least fresh] r by simp
  next
    case False
    then have "u \<in> set (visited st)" using u by (simp add: settle_def)
    from opt_inv_settled [OF inv this r] show ?thesis .
  qed
next
  fix v gv
  assume g: "g_score st v = Some gv"
    and v: "v \<notin> set (visited (settle st item))"
  then have v': "v \<notin> set (visited st)" "v \<noteq> snd item" by (simp_all add: settle_def)
  obtain f where f: "(f, v) \<in> set (open_set st)" "f \<le> gv + heuristic e v"
    using opt_inv_frontier [OF inv g v'(1)] by blast
  have "(f, v) \<noteq> item" using v'(2) by auto
  then have "(f, v) \<in> set (remove1 item (open_set st))"
    by (rule set_remove1_other [OF f(1)])
  then show "\<exists>f. (f, v) \<in> set (open_set (settle st item)) \<and> f \<le> gv + heuristic e v"
    using f(2) by (auto simp: settle_def)
next
  show "set (open_set (settle st item)) \<subseteq> set (open_set st)"
    using set_remove1_subset [of item "open_set st"] by (simp add: settle_def)
next
  show "goal e \<notin> set (visited (settle st item))"
    using opt_inv_goal [OF inv] ng by (simp add: settle_def)
qed (simp_all add: settle_def)

lemma opt_inv_insert:
  assumes inv: "opt_inv e S st"
    and c: "\<And>v. edge e cur v \<Longrightarrow>
          \<exists>gu gv. g_score st cur = Some gu \<and> g_score st v = Some gv \<and> gv \<le> gu + move_cost e v"
  shows "opt_inv e (insert cur S) st"
proof (rule opt_invI)
  fix u v assume u: "u \<in> insert cur S" and uv: "edge e u v"
  show "\<exists>gu gv. g_score st u = Some gu \<and> g_score st v = Some gv \<and> gv \<le> gu + move_cost e v"
  proof (cases "u = cur")
    case True
    then show ?thesis using c uv by simp
  next
    case False
    then have "u \<in> S" using u by simp
    then show ?thesis using uv by (rule opt_inv_closed [OF inv])
  qed
next
  fix v gv assume "g_score st v = Some gv"
  then show "reach e gv v" by (rule opt_inv_reach [OF inv])
next
  fix u c assume "u \<in> set (visited st)" "reach e c u"
  then show "\<exists>gu. g_score st u = Some gu \<and> gu \<le> c" by (rule opt_inv_settled [OF inv])
next
  fix v gv assume "g_score st v = Some gv" "v \<notin> set (visited st)"
  then show "\<exists>f. (f, v) \<in> set (open_set st) \<and> f \<le> gv + heuristic e v"
    by (rule opt_inv_frontier [OF inv])
next
  fix f v assume "(f, v) \<in> set (open_set st)"
  then show "v = start e \<or> (\<exists>gv. g_score st v = Some gv \<and> gv + heuristic e v \<le> f)"
    by (rule opt_inv_entry [OF inv])
next
  fix v u assume "came_from st v = Some u"
  then show "edge e u v \<and> (\<exists>gu gv. g_score st u = Some gu \<and> g_score st v = Some gv
               \<and> gu + move_cost e v \<le> gv)"
    by (rule opt_inv_came_from [OF inv])
next
  show "goal e \<notin> set (visited st)" by (rule opt_inv_goal [OF inv])
qed

lemma opt_inv_expand:
  assumes inv: "opt_inv e (set (visited st)) st" and b: "basic_inv e st"
    and mem: "item \<in> set (open_set st)"
    and least: "\<forall>y \<in> set (open_set st). item \<le> y"
    and fresh: "snd item \<notin> set (visited st)"
    and ng: "snd item \<noteq> goal e"
    and st2: "st2 = fold (relax e (snd item))
                (get_neighbors e (fst (snd item)) (snd (snd item))) (settle st item)"
  shows "opt_inv e (set (visited st2)) st2"
proof -
  let ?cur = "snd item"
  let ?ns = "get_neighbors e (fst ?cur) (snd ?cur)"
  let ?st1 = "settle st item"
  have v1: "set (visited ?st1) = insert ?cur (set (visited st))" by (simp add: settle_def)
  have i1: "opt_inv e (set (visited st)) ?st1"
    by (rule opt_inv_settle [OF inv b mem least fresh ng])
  have i2: "opt_inv e (set (visited st)) st2"
    unfolding st2 by (rule fold_relax_opt_inv [OF i1]) (simp_all add: v1 subset_insertI)
  obtain gc where gc: "g_score st ?cur = Some gc"
    using b mem unfolding basic_inv_def by fastforce
  then have gc1: "g_score ?st1 ?cur = Some gc" by (simp add: settle_def)
  have gc2: "g_score st2 ?cur = Some gc" unfolding st2 fold_relax_g_cur by (rule gc1)
  have "\<exists>gu gv. g_score st2 ?cur = Some gu \<and> g_score st2 v = Some gv
          \<and> gv \<le> gu + move_cost e v" if "edge e ?cur v" for v
  proof -
    have "v \<in> set ?ns" "safe e v" using that by (simp_all add: edge_def)
    from fold_relax_bound [OF gc1 this] show ?thesis using gc2 unfolding st2 by simp
  qed
  from opt_inv_insert [OF i2 this] show ?thesis
    unfolding st2 by (simp add: v1)
qed

lemma chain_valid_path:
  assumes "chain cf xs" "g (hd xs) = Some gx"
    and "\<forall>v u. cf v = Some u \<longrightarrow>
          edge e u v \<and> (\<exists>gu gv. g u = Some gu \<and> g v = Some gv \<and> gu + move_cost e v \<le> gv)"
    and "\<forall>v gv. g v = Some gv \<longrightarrow> 0 \<le> gv"
  shows "valid_path e (rev xs) \<and> path_cost e (rev xs) \<le> gx"
  using assms
proof (induction cf xs arbitrary: gx rule: chain.induct)
  case (1 cf)
  then show ?case by simp
next
  case (2 cf x)
  have "g x = Some gx" using "2.prems"(2) by simp
  then have "0 \<le> gx" using "2.prems"(4) by blast
  then show ?case by simp
next
  case (3 cf x y ys)
  have c: "cf x = Some y" "chain cf (y # ys)" using "3.prems"(1) by simp_all
  have gx: "g x = Some gx" using "3.prems"(2) by simp
  obtain gy where gy: "edge e y x" "g y = Some gy" "gy + move_cost e x \<le> gx"
    using "3.prems"(3) c(1) gx by fastforce
  have ih: "valid_path e (rev (y # ys)) \<and> path_cost e (rev (y # ys)) \<le> gy"
    by (rule "3.IH" [OF c(2) _ "3.prems"(3,4)]) (simp add: gy(2))
  have ne: "rev (y # ys) \<noteq> []" by simp
  have la: "last (rev (y # ys)) = y" unfolding last_rev by simp
  have r: "rev (x # y # ys) = rev (y # ys) @ [x]" by simp
  show ?case
    unfolding r valid_path_snoc [OF ne] path_cost_snoc [OF ne] la
    using ih gy by simp
qed

lemma opt_inv_initial: "opt_inv e (set (visited (initial_state e))) (initial_state e)"
proof (rule opt_invI)
  fix v gv assume "g_score (initial_state e) v = Some gv"
  then have "v = start e \<and> gv = 0" by (simp add: initial_state_def split: if_splits)
  then show "reach e gv v" using reach_start [of e] by simp
next
  fix v gv assume "g_score (initial_state e) v = Some gv"
  then have "v = start e \<and> gv = 0" by (simp add: initial_state_def split: if_splits)
  then show "\<exists>f. (f, v) \<in> set (open_set (initial_state e)) \<and> f \<le> gv + heuristic e v"
    using heuristic_nonneg [of e "start e"]
    by (intro exI [of _ 0]) (simp add: initial_state_def heappush_def)
next
  fix f v assume "(f, v) \<in> set (open_set (initial_state e))"
  then show "v = start e
      \<or> (\<exists>gv. g_score (initial_state e) v = Some gv \<and> gv + heuristic e v \<le> f)"
    by (simp add: initial_state_def heappush_def)
qed (simp_all add: initial_state_def)

lemma search_inv_stale:
  assumes i: "search_inv e st" and old: "snd item \<in> set (visited st)"
  shows "search_inv e (st\<lparr>open_set := remove1 item (open_set st)\<rparr>)"
proof -
  let ?st' = "st\<lparr>open_set := remove1 item (open_set st)\<rparr>"
  have b: "basic_inv e st" and o: "opt_inv e (set (visited st)) st"
    using i unfolding search_inv_def by blast+
  have v: "visited ?st' = visited st" by simp
  have "opt_inv e (set (visited st)) ?st'" by (rule opt_inv_stale [OF o old])
  moreover have "basic_inv e ?st'" by (rule basic_inv_remove1 [OF b])
  ultimately show ?thesis unfolding search_inv_def v by blast
qed

lemma search_inv_expand:
  assumes i: "search_inv e st"
    and mem: "item \<in> set (open_set st)"
    and least: "\<forall>y \<in> set (open_set st). item \<le> y"
    and fresh: "snd item \<notin> set (visited st)"
    and ng: "snd item \<noteq> goal e"
  shows "search_inv e (fold (relax e (snd item))
           (get_neighbors e (fst (snd item)) (snd (snd item))) (settle st item))"
proof -
  have b: "basic_inv e st" and o: "opt_inv e (set (visited st)) st"
    using i unfolding search_inv_def by blast+
  have b2: "basic_inv e (fold (relax e (snd item))
           (get_neighbors e (fst (snd item)) (snd (snd item))) (settle st item))"
    by (rule fold_relax_basic_inv [OF basic_inv_settle [OF b]])
  have o2: "opt_inv e (set (visited (fold (relax e (snd item))
           (get_neighbors e (fst (snd item)) (snd (snd item))) (settle st item))))
        (fold (relax e (snd item))
           (get_neighbors e (fst (snd item)) (snd (snd item))) (settle st item))"
    by (rule opt_inv_expand [OF o b mem least fresh ng refl])
  show ?thesis unfolding search_inv_def using b2 o2 by blast
qed

lemma search_inv_found:
  assumes i: "search_inv e st"
    and ex: "reach e c0 (goal e)"
    and mem: "item \<in> set (open_set st)"
    and least: "\<forall>y \<in> set (open_set st). item \<le> y"
    and fresh: "snd item \<notin> set (visited st)"
    and g: "snd item = goal e"
  shows "\<exists>p. reconstruct_path (came_from st) (goal e) = Some p
          \<and> optimal_outcome e (Inr (found_result p st', e))"
proof -
  have b: "basic_inv e st" and o: "opt_inv e (set (visited st)) st"
    using i unfolding search_inv_def by blast+
  have best: "\<exists>gu. g_score st (goal e) = Some gu \<and> gu \<le> c" if "reach e c (goal e)" for c
    using popped_is_optimal [OF o b mem least fresh, of c] that unfolding g by simp
  obtain gg where gg: "g_score st (goal e) = Some gg" using best [OF ex] by blast
  have ok: "chain_ok (g_score st) (came_from st)" using b unfolding basic_inv_def by blast
  obtain sfx where r: "reconstruct_path (came_from st) (goal e) = Some (rev (goal e # sfx))"
    and ch: "chain (came_from st) (goal e # sfx)"
    using reconstruct_path_total [OF ok] by blast
  have gd: "g_score st (goal e) \<noteq> None" using gg by simp
  obtain p where p: "reconstruct_path (came_from st) (goal e) = Some p" "p \<noteq> []"
      "hd p = start e" "last p = goal e"
    using reconstruct_path_basic [OF b gd] by blast
  have pe: "p = rev (goal e # sfx)" using r p(1) by simp
  have cfp: "\<forall>v u. came_from st v = Some u \<longrightarrow>
          edge e u v \<and> (\<exists>gu gv. g_score st u = Some gu \<and> g_score st v = Some gv
             \<and> gu + move_cost e v \<le> gv)"
    using opt_inv_came_from [OF o] by blast
  have nn: "\<forall>v gv. g_score st v = Some gv \<longrightarrow> 0 \<le> gv"
    using ok unfolding chain_ok_def by blast
  have hdg: "g_score st (hd (goal e # sfx)) = Some gg" using gg by simp
  have vp: "valid_path e p \<and> path_cost e p \<le> gg"
    unfolding pe by (rule chain_valid_path [OF ch hdg cfp nn])
  have le: "path_cost e p \<le> c" if rc: "reach e c (goal e)" for c
  proof -
    obtain gu where "g_score st (goal e) = Some gu" "gu \<le> c" using best [OF rc] by blast
    then show ?thesis using gg vp by simp
  qed
  have pp: "path (found_result p st') = p" by (simp add: found_result_def)
  have "optimal_outcome e (Inr (found_result p st', e))"
    unfolding optimal_outcome_def
    by (rule exI [of _ "found_result p st'"]) (use p vp le pp in simp)
  then show ?thesis using p(1) by blast
qed

lemma search_inv_nonempty:
  assumes i: "search_inv e st" and ex: "reach e c0 (goal e)"
  shows "open_set st \<noteq> []"
proof
  assume em: "open_set st = []"
  have b: "basic_inv e st" and o: "opt_inv e (set (visited st)) st"
    using i unfolding search_inv_def by blast+
  have g0: "g_score st (start e) = Some 0" using b unfolding basic_inv_def by blast
  have ng: "goal e \<notin> set (visited st)" by (rule opt_inv_goal [OF o])
  from frontier_or_settled [OF o g0 ex] show False
  proof
    assume "goal e \<in> set (visited st) \<and> (\<exists>gw. g_score st (goal e) = Some gw \<and> gw \<le> c0)"
    then show False using ng by blast
  next
    assume "\<exists>f x. (f, x) \<in> set (open_set st) \<and> f \<le> c0 + heuristic e (goal e)"
    then show False unfolding em by simp
  qed
qed

lemma search_inv_initial: "search_inv e (initial_state e)"
  unfolding search_inv_def using basic_inv_initial opt_inv_initial by blast

lemma a_star_loop_optimal:
  assumes sq: "square (grid_size e) (grid e)" and ex: "reach e c0 (goal e)"
    and init: "search_inv e st0"
  shows "\<exists>out. a_star_loop e st0 = Some out \<and> optimal_outcome e out"
proof (rule a_star_loop_rule [where I = "search_inv e" and Q = "optimal_outcome e"])
  show "search_inv e st0" by (rule init)
next
  fix st :: search_state and item :: "int \<times> pos"
  assume "search_inv e st" "snd item \<in> set (visited st)"
  then show "search_inv e (st\<lparr>open_set := remove1 item (open_set st)\<rparr>)"
    by (rule search_inv_stale)
next
  fix st :: search_state and item :: "int \<times> pos"
  assume i: "search_inv e st"
    and mem: "item \<in> set (open_set st)"
    and least: "\<forall>y \<in> set (open_set st). item \<le> y"
    and fresh: "snd item \<notin> set (visited st)"
    and ng: "snd item \<noteq> goal e"
  show "case explore_neighbors e (snd item)
               (get_neighbors e (fst (snd item)) (snd (snd item))) (settle st item) of
          Inl err \<Rightarrow> optimal_outcome e (Inl err)
        | Inr st2 \<Rightarrow> search_inv e st2"
    unfolding explore_neighbors_square [OF sq] sum.case
    by (rule search_inv_expand [OF i mem least fresh ng])
next
  fix st :: search_state and item :: "int \<times> pos"
  assume i: "search_inv e st"
    and mem: "item \<in> set (open_set st)"
    and least: "\<forall>y \<in> set (open_set st). item \<le> y"
    and fresh: "snd item \<notin> set (visited st)"
    and g: "snd item = goal e"
  show "\<exists>p. reconstruct_path (came_from st) (goal e) = Some p
          \<and> optimal_outcome e (Inr (found_result p (settle st item), e))"
    by (rule search_inv_found [OF i ex mem least fresh g])
next
  fix st :: search_state
  assume "search_inv e st" "open_set st = []"
  then show "optimal_outcome e (Inr (no_path_result st, e))"
    using search_inv_nonempty [OF _ ex] by blast
qed

text \<open>
  C1: on every square grid on which some valid path leads from the start cell to the goal
  cell (4-directional steps inside the grid, every cell after the first satisfying the
  safety predicate), \<open>a_star_search\<close> returns a non-empty path; that path is itself such
  a path, and no such path has a lower cost, where the cost of a path is the sum over its
  cells after the first of 2 for a Dangerous cell and 1 otherwise.
\<close>

theorem C1_returned_path_is_cost_optimal:
  assumes "square (grid_size e) (grid e)"
    and "\<exists>q. valid_path e q \<and> hd q = start e \<and> last q = goal e"
  shows "\<exists>r. a_star_search e = Some (Inr (r, e)) \<and> path r \<noteq> []
           \<and> valid_path e (path r) \<and> hd (path r) = start e \<and> last (path r) = goal e
           \<and> (\<forall>q. valid_path e q \<and> hd q = start e \<and> last q = goal e \<longrightarrow>
                 path_cost e (path r) \<le> path_cost e q)"
proof -
  obtain q0 where q0: "valid_path e q0" "hd q0 = start e" "last q0 = goal e"
    using assms(2) by blast
  have ex: "reach e (path_cost e q0) (goal e)"
    using valid_path_reach [OF q0(1,2)] q0(3) by simp
  obtain out where out: "a_star_search e = Some out" "optimal_outcome e out"
    using a_star_loop_optimal [OF assms(1) ex search_inv_initial]
    unfolding a_star_search_def by blast
  then obtain r where r: "out = Inr (r, e)" "path r \<noteq> []" "valid_path e (path r)"
      "hd (path r) = start e" "last (path r) = goal e"
      and best: "\<And>c. reach e c (goal e) \<Longrightarrow> path_cost e (path r) \<le> c"
    unfolding optimal_outcome_def by blast
  have "path_cost e (path r) \<le> path_cost e q"
    if "valid_path e q \<and> hd q = start e \<and> last q = goal e" for q
  proof -
    have "reach e (path_cost e q) (goal e)"
      using valid_path_reach [of e q] that by auto
    then show ?thesis by (rule best)
  qed
  then show ?thesis using out(1) r by blast
qed

theorem C1_returned_path_is_cost_optimal_witness:
  "square (grid_size (load_grid [[0, 2, 0], [2, 1, 2], [0, 2, 0]]))
     (grid (load_grid [[0, 2, 0], [2, 1, 2], [0, 2, 0]]))
   \<and> valid_path (load_grid [[0, 2, 0], [2, 1, 2], [0, 2, 0]])
       [(0, 0), (1, 0), (2, 0), (2, 1), (2, 2)]
   \<and> hd [(0, 0), (1, 0), (2, 0), (2, 1), (2, 2)]
       = start (load_grid [[0, 2, 0], [2, 1, 2], [0, 2, 0]])
   \<and> last [(0, 0), (1, 0), (2, 0), (2, 1), (2, 2)]
       = goal (load_grid [[0, 2, 0], [2, 1, 2], [0, 2, 0]])
   \<and> map_option (map_sum id (path \<circ> fst))
         (a_star_search (load_grid [[0, 2, 0], [2, 1, 2], [0, 2, 0]]))
       = Some (Inr [(0, 0), (0, 1), (0, 2), (1, 2), (2, 2)])
   \<and> path_cost (load_grid [[0, 2, 0], [2, 1, 2], [0, 2, 0]])
         [(0, 0), (0, 1), (0, 2), (1, 2), (2, 2)]
       \<le> path_cost (load_grid [[0, 2, 0], [2, 1, 2], [0, 2, 0]])
         [(0, 0), (1, 0), (2, 0), (2, 1), (2, 2)]"
proof -
  let ?e = "load_grid [[0, 2, 0], [2, 1, 2], [0, 2, 0]]"
  let ?q = "[(0, 0), (1, 0), (2, 0), (2, 1), (2, 2)] :: pos list"
  have sq: "square (grid_size ?e) (grid ?e)"
    by (simp add: square_def load_grid_def MarioTrapAvoidance_def)
  have q: "valid_path ?e ?q \<and> hd ?q = start ?e \<and> last ?q = goal ?e"
    by code_simp
  have run: "map_option (map_sum id (path \<circ> fst)) (a_star_search ?e)
       = Some (Inr [(0, 0), (0, 1), (0, 2), (1, 2), (2, 2)])"
    by code_simp
  have exq: "\<exists>q. valid_path ?e q \<and> hd q = start ?e \<and> last q = goal ?e"
    using q by blast
  obtain r where r: "a_star_search ?e = Some (Inr (r, ?e))"
    and best: "\<forall>q. valid_path ?e q \<and> hd q = start ?e \<and> last q = goal ?e \<longrightarrow>
                 path_cost ?e (path r) \<le> path_cost ?e q"
    using C1_returned_path_is_cost_optimal [OF sq exq] by blast
  have "path r = [(0, 0), (0, 1), (0, 2), (1, 2), (2, 2)]" using run r by simp
  then have "path_cost ?e [(0, 0), (0, 1), (0, 2), (1, 2), (2, 2)] \<le> path_cost ?e ?q"
    using best q by metis
  then show ?thesis using sq q run by blast
qed

end
